theory Spec2Isabelle
  imports Complex_Main "HOL-Library.AList"
begin

section \<open>Values, errors and arrays\<close>

text \<open>
  The framework is Python 2 over numpy. An exception is a value of \<open>error\<close>; the two
  diagnostics that \<open>Cell.set_IC\<close> prints before it returns without storing anything are
  \<open>NoModelMessage\<close> and \<open>CountMessage\<close>. \<open>RuntimeError\<close> is what Python 2 raises when
  the recursion limit is reached.
\<close>

datatype error =
    AttributeError | NameError | KeyError | IndexError | TypeError | ValueError
  | RuntimeError | NoModelMessage | CountMessage nat nat

definition ebind :: "error + 'a \<Rightarrow> ('a \<Rightarrow> error + 'b) \<Rightarrow> error + 'b" where
  "ebind m f = (case m of Inl e \<Rightarrow> Inl e | Inr x \<Rightarrow> f x)"

fun emap :: "('a \<Rightarrow> error + 'b) \<Rightarrow> 'a list \<Rightarrow> error + 'b list" where
  "emap f [] = Inr []"
| "emap f (x # xs) = ebind (f x) (\<lambda>y. ebind (emap f xs) (\<lambda>ys. Inr (y # ys)))"

definition nth_err :: "'a list \<Rightarrow> nat \<Rightarrow> error + 'a" where
  "nth_err xs i = (if i < length xs then Inr (xs ! i) else Inl IndexError)"

text \<open>
  A floating point number is a real or the not-a-number sentinel, which every arithmetic
  operation propagates. Rounding and overflow are not modelled, and an infinity (the
  result of numpy's division of a non-zero number by zero) is identified with \<open>NaN\<close>.
\<close>

datatype float = Fin real | NaN

fun nadd :: "float \<Rightarrow> float \<Rightarrow> float" where
  "nadd (Fin a) (Fin b) = Fin (a + b)"
| "nadd _ _ = NaN"

fun nsub :: "float \<Rightarrow> float \<Rightarrow> float" where
  "nsub (Fin a) (Fin b) = Fin (a - b)"
| "nsub _ _ = NaN"

fun nmul :: "float \<Rightarrow> float \<Rightarrow> float" where
  "nmul (Fin a) (Fin b) = Fin (a * b)"
| "nmul _ _ = NaN"

fun ndiv :: "float \<Rightarrow> float \<Rightarrow> float" where
  "ndiv (Fin a) (Fin b) = (if b = 0 then NaN else Fin (a / b))"
| "ndiv _ _ = NaN"

fun nneg :: "float \<Rightarrow> float" where
  "nneg (Fin a) = Fin (- a)"
| "nneg NaN = NaN"

definition is_integral :: "real \<Rightarrow> bool" where
  "is_integral r = (r = of_int \<lfloor>r\<rfloor>)"

text \<open>\<open>x ** n\<close> for a float \<open>x\<close> and a number \<open>n\<close> (IEEE \<open>pow\<close>: anything to the power 0 is 1).\<close>

fun fpow :: "float \<Rightarrow> real \<Rightarrow> float" where
  "fpow NaN n = (if n = 0 then Fin 1 else NaN)"
| "fpow (Fin x) n =
     (if n = 0 then Fin 1
      else if is_integral n then
        (if 0 < n then Fin (x ^ nat \<lfloor>n\<rfloor>)
         else if x = 0 then NaN else Fin (1 / x ^ nat \<lfloor>- n\<rfloor>))
      else if 0 < x then Fin (x powr n)
      else if x = 0 \<and> 0 < n then Fin 0
      else NaN)"

text \<open>
  A two-axis numpy array is its shape and its row-major buffer: entry \<open>(r, c)\<close> of an
  array of shape \<open>(nrows, ncols)\<close> is \<open>dat ! (r * ncols + c)\<close>.
\<close>

record 'a matrix =
  nrows :: nat
  ncols :: nat
  dat :: "'a list"

definition mat_ok :: "'a matrix \<Rightarrow> bool" where
  "mat_ok m = (length (dat m) = nrows m * ncols m)"

definition entry :: "'a matrix \<Rightarrow> nat \<Rightarrow> nat \<Rightarrow> 'a" where
  "entry m r c = dat m ! (r * ncols m + c)"

text \<open>\<open>m[:, j]\<close>: IndexError when the column does not exist.\<close>

definition column :: "'a matrix \<Rightarrow> nat \<Rightarrow> error + 'a list" where
  "column m j =
     (if j < ncols m then Inr (map (\<lambda>r. entry m r j) [0..<nrows m]) else Inl IndexError)"

text \<open>
  The in-place \<open>a *= b\<close> and \<open>a += b\<close> on one-axis arrays: elementwise when the lengths
  agree, \<open>b\<close> broadcast when it has length one, ValueError otherwise.
\<close>

definition inplace :: "(float \<Rightarrow> float \<Rightarrow> float) \<Rightarrow> float list \<Rightarrow> float list \<Rightarrow> error + float list" where
  "inplace f a b =
     (if length b = length a then Inr (map2 f a b)
      else if length b = 1 then Inr (map (\<lambda>x. f x (b ! 0)) a)
      else Inl ValueError)"

section \<open>Reaction terms\<close>

datatype kind =
    ConstantProduction | LinearActivation | HillActivation | HillInactivation
  | LinearDegradation | ParabolicDegradation | Diffusion

text \<open>
  One record for the term classes. An attribute that \<open>set_params\<close> has not assigned does
  not exist on the Python object: it is \<open>None\<close> here, and reading it is an AttributeError.
  \<open>dist_pre\<close> and \<open>cmask\<close> are the two matrices of a \<open>Diffusion\<close> (empty lists for the
  other kinds, which have no such attribute).
\<close>

record edge_model =
  kind :: kind
  num_params :: nat
  params_set :: bool
  is_mod :: bool
  mod_type :: "string option"
  prm_C :: "real option"
  prm_A :: "real option"
  prm_n :: "real option"
  prm_D :: "real option"
  dist_pre :: "real list list"
  cmask :: "bool list list"

text \<open>
  \<open>set_params\<close> assigns \<open>params[0]\<close>, \<open>params[1]\<close>, ... in the order of the source and
  sets \<open>params_set\<close> last; a list that is too short raises IndexError after the earlier
  attributes have been assigned.
\<close>

fun assign_params ::
  "(real \<Rightarrow> edge_model \<Rightarrow> edge_model) list \<Rightarrow> real list \<Rightarrow> edge_model \<Rightarrow> edge_model \<times> (error + unit)"
where
  "assign_params [] ps m = (m\<lparr>params_set := True\<rparr>, Inr ())"
| "assign_params (f # fs) [] m = (m, Inl IndexError)"
| "assign_params (f # fs) (p # ps) m = assign_params fs ps (f p m)"

definition set_C :: "real \<Rightarrow> edge_model \<Rightarrow> edge_model" where
  "set_C v m = m\<lparr>prm_C := Some v\<rparr>"

definition set_A :: "real \<Rightarrow> edge_model \<Rightarrow> edge_model" where
  "set_A v m = m\<lparr>prm_A := Some v\<rparr>"

definition set_n :: "real \<Rightarrow> edge_model \<Rightarrow> edge_model" where
  "set_n v m = m\<lparr>prm_n := Some v\<rparr>"

definition set_D :: "real \<Rightarrow> edge_model \<Rightarrow> edge_model" where
  "set_D v m = m\<lparr>prm_D := Some v\<rparr>"

definition set_params :: "edge_model \<Rightarrow> real list \<Rightarrow> edge_model \<times> (error + unit)" where
  "set_params m ps =
     (case kind m of
        HillActivation \<Rightarrow> assign_params [set_C, set_A, set_n] ps m
      | HillInactivation \<Rightarrow> assign_params [set_D, set_C, set_A, set_n] ps m
      | _ \<Rightarrow> assign_params [set_C] ps m)"

definition new_model :: "kind \<Rightarrow> nat \<Rightarrow> bool \<Rightarrow> string option \<Rightarrow> edge_model" where
  "new_model k np im mt =
     \<lparr>kind = k, num_params = np, params_set = False, is_mod = im, mod_type = mt,
      prm_C = None, prm_A = None, prm_n = None, prm_D = None, dist_pre = [], cmask = []\<rparr>"

text \<open>The constructors: \<open>__init__\<close> calls \<open>set_params\<close> when parameters are given.\<close>

definition init_params :: "edge_model \<Rightarrow> real list option \<Rightarrow> error + edge_model" where
  "init_params m params =
     (case params of
        None \<Rightarrow> Inr m
      | Some ps \<Rightarrow> (case set_params m ps of (m', Inl e) \<Rightarrow> Inl e | (m', Inr u) \<Rightarrow> Inr m'))"

definition ConstantProduction_init :: "real list option \<Rightarrow> error + edge_model" where
  "ConstantProduction_init params = init_params (new_model ConstantProduction 1 False None) params"

definition LinearActivation_init ::
  "bool \<Rightarrow> string option \<Rightarrow> real list option \<Rightarrow> error + edge_model" where
  "LinearActivation_init im mt params = init_params (new_model LinearActivation 1 im mt) params"

definition HillActivation_init ::
  "bool \<Rightarrow> string option \<Rightarrow> real list option \<Rightarrow> error + edge_model" where
  "HillActivation_init im mt params = init_params (new_model HillActivation 3 im mt) params"

definition HillInactivation_init ::
  "bool \<Rightarrow> string option \<Rightarrow> real list option \<Rightarrow> error + edge_model" where
  "HillInactivation_init im mt params = init_params (new_model HillInactivation 4 im mt) params"

definition LinearDegradation_init :: "real list option \<Rightarrow> error + edge_model" where
  "LinearDegradation_init params = init_params (new_model LinearDegradation 1 False None) params"

definition ParabolicDegradation_init :: "real list option \<Rightarrow> error + edge_model" where
  "ParabolicDegradation_init params =
     init_params (new_model ParabolicDegradation 1 False None) params"

text \<open>
  \<open>apply(x)\<close> of the six internal terms on a one-axis array. A \<open>Diffusion\<close> takes a second
  argument, so calling it with one is a TypeError.
\<close>

definition hill :: "real \<Rightarrow> real \<Rightarrow> real \<Rightarrow> float \<Rightarrow> float" where
  "hill c a n x =
     ndiv (nmul (Fin c) (fpow (ndiv x (Fin a)) n)) (nadd (Fin 1) (fpow (ndiv x (Fin a)) n))"

definition apply_term :: "edge_model \<Rightarrow> float list \<Rightarrow> error + float list" where
  "apply_term m x =
     (case kind m of
        ConstantProduction \<Rightarrow>
          (case prm_C m of None \<Rightarrow> Inl AttributeError
           | Some c \<Rightarrow> Inr (map (\<lambda>one. nmul (Fin c) one) (replicate (length x) (Fin 1))))
      | LinearActivation \<Rightarrow>
          (case prm_C m of None \<Rightarrow> Inl AttributeError
           | Some c \<Rightarrow> Inr (map (\<lambda>v. nmul (Fin c) v) x))
      | HillActivation \<Rightarrow>
          (case (prm_C m, prm_A m, prm_n m) of
             (Some c, Some a, Some n) \<Rightarrow> Inr (map (hill c a n) x)
           | _ \<Rightarrow> Inl AttributeError)
      | HillInactivation \<Rightarrow>
          (case (prm_D m, prm_C m, prm_A m, prm_n m) of
             (Some d, Some c, Some a, Some n) \<Rightarrow> Inr (map (\<lambda>v. nsub (Fin d) (hill c a n v)) x)
           | _ \<Rightarrow> Inl AttributeError)
      | LinearDegradation \<Rightarrow>
          (case prm_C m of None \<Rightarrow> Inl AttributeError
           | Some c \<Rightarrow> Inr (map (\<lambda>v. nmul (Fin c) (nneg v)) x))
      | ParabolicDegradation \<Rightarrow>
          (case prm_C m of None \<Rightarrow> Inl AttributeError
           | Some c \<Rightarrow> Inr (map (\<lambda>v. nmul (Fin c) (nneg (fpow v 2))) x))
      | Diffusion \<Rightarrow> Inl TypeError)"

section \<open>The internal model: nodes and edges\<close>

record node =
  name :: string
  degrades :: bool
  degradation :: "edge_model option"
  diffuses :: bool
  is_primary :: bool

definition Node_init :: "string \<Rightarrow> node" where
  "Node_init nm =
     \<lparr>name = nm, degrades = False, degradation = None, diffuses = False, is_primary = False\<rparr>"

definition set_degradation :: "node \<Rightarrow> edge_model option \<Rightarrow> node" where
  "set_degradation nd d = nd\<lparr>degrades := (d \<noteq> None), degradation := d\<rparr>"

text \<open>
  The \<open>to\<close> argument of an edge is dynamically typed: a node name or an edge id.
  \<open>link\<close> holds the attributes that \<open>Edge\<close> and \<open>Interaction\<close> share; the resolver reads
  \<open>external\<close> to tell them apart.
\<close>

datatype target = NodeName string | EdgeId nat

record link =
  from_node :: string
  to_node :: "target option"
  to_edge :: "target option"
  is_mod :: bool
  mod_type :: "string option"
  model :: edge_model
  external :: bool

record edge = link +
  edge_id :: nat

text \<open>\<open>Edge.__init__\<close>; the model is \<open>None\<close> when the term kind was unknown.\<close>

definition Edge_init :: "string \<Rightarrow> target \<Rightarrow> edge_model option \<Rightarrow> nat \<Rightarrow> error + edge" where
  "Edge_init src tgt mo eid =
     (case mo of
        None \<Rightarrow> Inl AttributeError
      | Some m \<Rightarrow>
          Inr \<lparr>from_node = src,
               to_node = (if edge_model.is_mod m then None else Some tgt),
               to_edge = (if edge_model.is_mod m then Some tgt else None),
               is_mod = edge_model.is_mod m,
               mod_type = edge_model.mod_type m,
               model = m,
               external = False,
               edge_id = eid\<rparr>)"

text \<open>
  \<open>node_names\<close> is the dict from a name to its node index, as an association list. The
  unused list \<open>num_params\<close> of the class is left out.
\<close>

record internal_model =
  nodes :: "node list"
  edges :: "edge list"
  node_names :: "(string \<times> nat) list"
  edge_counter :: nat

definition InternalModel_init :: internal_model where
  "InternalModel_init = \<lparr>nodes = [], edges = [], node_names = [], edge_counter = 0\<rparr>"

definition get_node_id :: "internal_model \<Rightarrow> string \<Rightarrow> error + nat" where
  "get_node_id im nm = (case map_of (node_names im) nm of None \<Rightarrow> Inl KeyError | Some i \<Rightarrow> Inr i)"

definition get_node :: "internal_model \<Rightarrow> string \<Rightarrow> error + node" where
  "get_node im nm = ebind (get_node_id im nm) (nth_err (nodes im))"

definition get_edge :: "internal_model \<Rightarrow> nat \<Rightarrow> error + edge" where
  "get_edge im eid = nth_err (filter (\<lambda>e. edge_id e = eid) (edges im)) 0"

text \<open>
  The mutating methods return the model after the call together with the result or the
  exception: what was written before an exception stays written. A degradation kind
  other than \<open>'linear'\<close>, \<open>'parabolic'\<close> and \<open>None\<close> leaves \<open>deg_model\<close> unbound, and
  reading it is an UnboundLocalError, which is a NameError.
\<close>

definition set_node_degradation ::
  "internal_model \<Rightarrow> string \<Rightarrow> string option \<Rightarrow> real list option
     \<Rightarrow> internal_model \<times> (error + edge option)"
where
  "set_node_degradation im nm deg params =
     (case get_node_id im nm of
        Inl e \<Rightarrow> (im, Inl e)
      | Inr i \<Rightarrow>
          if \<not> i < length (nodes im) then (im, Inl IndexError)
          else
            (case (if deg = Some ''linear'' then Some (LinearDegradation_init params)
                   else if deg = Some ''parabolic'' then Some (ParabolicDegradation_init params)
                   else None) of
               None \<Rightarrow>
                 if deg = None
                 then (im\<lparr>nodes := (nodes im)[i := set_degradation (nodes im ! i) None]\<rparr>, Inr None)
                 else (im, Inl NameError)
             | Some (Inl e) \<Rightarrow> (im, Inl e)
             | Some (Inr dm) \<Rightarrow>
                 (let im1 = im\<lparr>nodes := (nodes im)[i := set_degradation (nodes im ! i) (Some dm)]\<rparr>;
                      eid = edge_counter im1;
                      im2 = im1\<lparr>edge_counter := edge_counter im1 + 1\<rparr>
                  in case Edge_init nm (NodeName nm) (Some dm) eid of
                       Inl e \<Rightarrow> (im2, Inl e)
                     | Inr new_edge \<Rightarrow>
                         (let im3 = im2\<lparr>edges := edges im2 @ [new_edge]\<rparr>
                          in (im3, ebind (get_edge im3 eid) (\<lambda>e. Inr (Some e)))))))"

definition add_node ::
  "internal_model \<Rightarrow> string \<Rightarrow> string option \<Rightarrow> real list option
     \<Rightarrow> internal_model \<times> (error + node)"
where
  "add_node im nm deg params =
     (let im1 = im\<lparr>nodes := nodes im @ [Node_init nm]\<rparr>;
          im2 = im1\<lparr>node_names := AList.update nm (length (nodes im1) - 1) (node_names im1)\<rparr>
      in case set_node_degradation im2 nm deg params of
           (im3, Inl e) \<Rightarrow> (im3, Inl e)
         | (im3, Inr r) \<Rightarrow> (im3, get_node im3 nm))"

definition get_edge_model ::
  "string \<Rightarrow> bool \<Rightarrow> string option \<Rightarrow> real list option \<Rightarrow> error + edge_model option"
where
  "get_edge_model ty im mt params =
     (if ty = ''const_prod'' then ebind (ConstantProduction_init params) (\<lambda>m. Inr (Some m))
      else if ty = ''lin_activ'' then ebind (LinearActivation_init im mt params) (\<lambda>m. Inr (Some m))
      else if ty = ''hill_activ'' then ebind (HillActivation_init im mt params) (\<lambda>m. Inr (Some m))
      else if ty = ''hill_inactiv'' then
        ebind (HillInactivation_init im mt params) (\<lambda>m. Inr (Some m))
      else Inr None)"

definition add_edge ::
  "internal_model \<Rightarrow> string \<Rightarrow> target \<Rightarrow> string \<Rightarrow> bool \<Rightarrow> string option \<Rightarrow> real list option
     \<Rightarrow> internal_model \<times> (error + nat)"
where
  "add_edge im src tgt ty im_flag mt params =
     (let eid = edge_counter im;
          im1 = im\<lparr>edge_counter := edge_counter im + 1\<rparr>
      in case ebind (get_edge_model ty im_flag mt params) (\<lambda>mo. Edge_init src tgt mo eid) of
           Inl e \<Rightarrow> (im1, Inl e)
         | Inr new_edge \<Rightarrow> (im1\<lparr>edges := edges im1 @ [new_edge]\<rparr>, Inr eid))"

definition num_nodes :: "internal_model \<Rightarrow> nat" where
  "num_nodes im = length (nodes im)"

definition get_node_names :: "internal_model \<Rightarrow> string list" where
  "get_node_names im = map name (nodes im)"

text \<open>\<open>reduce(lambda x,y: x and y, xs)\<close>: a TypeError on the empty list.\<close>

definition reduce_and :: "bool list \<Rightarrow> error + bool" where
  "reduce_and bs = (case bs of [] \<Rightarrow> Inl TypeError | b # rest \<Rightarrow> Inr (foldl (\<and>) b rest))"

definition all_params_set :: "internal_model \<Rightarrow> bool" where
  "all_params_set im =
     (let edges_set = map (\<lambda>e. params_set (model e)) (edges im)
      in if length edges_set > 0 then foldl (\<and>) (hd edges_set) (tl edges_set) else True)"

definition IM_get_contributions :: "internal_model \<Rightarrow> string \<Rightarrow> edge list" where
  "IM_get_contributions im nm = filter (\<lambda>e. to_node e = Some (NodeName nm)) (edges im)"

definition IM_get_modifiers :: "internal_model \<Rightarrow> nat \<Rightarrow> edge list" where
  "IM_get_modifiers im eid =
     filter (\<lambda>e. to_edge e = Some (EdgeId eid) \<and> link.is_mod e) (edges im)"

section \<open>Cells\<close>

text \<open>
  A cell refers to its internal model. The model is stored by value: models are built
  before they are assigned and are not changed afterwards. Cells are stored by value
  in the cell list of a simulation: a cell object is registered once.
\<close>

record cell =
  position :: "real list option"
  IM :: "internal_model option"
  IC :: "float list option"
  num_species :: nat
  cell_id :: "nat option"

definition Cell_init :: "real list option \<Rightarrow> cell" where
  "Cell_init pos = \<lparr>position = pos, IM = None, IC = None, num_species = 0, cell_id = None\<rparr>"

definition set_cell_id :: "cell \<Rightarrow> nat \<Rightarrow> cell" where
  "set_cell_id c cid = c\<lparr>cell_id := Some cid\<rparr>"

definition set_pos :: "cell \<Rightarrow> real list \<Rightarrow> cell" where
  "set_pos c pos = c\<lparr>position := Some pos\<rparr>"

definition set_IM :: "cell \<Rightarrow> internal_model \<Rightarrow> cell" where
  "set_IM c im = c\<lparr>IM := Some im, num_species := num_nodes im\<rparr>"

text \<open>
  \<open>set_IC\<close> takes a dict from species names to scalars: an association list with distinct
  keys, whose \<open>len\<close> is its length. The loop \<open>for i in xrange(len(IC))\<close> writes
  \<open>self.IC[i] = IC[self.IM.nodes[i].name]\<close> into the array that was stored before the
  loop started; a missing name raises KeyError and leaves the array stored.
\<close>

fun set_IC_loop ::
  "(string \<times> real) list \<Rightarrow> node list \<Rightarrow> nat list \<Rightarrow> float list \<Rightarrow> float list \<times> (error + unit)"
where
  "set_IC_loop d ns [] arr = (arr, Inr ())"
| "set_IC_loop d ns (i # rest) arr =
     (case map_of d (name (ns ! i)) of
        None \<Rightarrow> (arr, Inl KeyError)
      | Some v \<Rightarrow> set_IC_loop d ns rest (arr[i := Fin v]))"

definition set_IC :: "cell \<Rightarrow> (string \<times> real) list \<Rightarrow> cell \<times> (error + unit)" where
  "set_IC c d =
     (case IM c of
        None \<Rightarrow> (c, Inl NoModelMessage)
      | Some im \<Rightarrow>
          if \<not> length d = num_nodes im then (c, Inl (CountMessage (length d) (num_nodes im)))
          else
            (case set_IC_loop d (nodes im) [0..<length d] (replicate (length d) (Fin 0)) of
               (arr, r) \<Rightarrow> (c\<lparr>IC := Some arr\<rparr>, r)))"

section \<open>The simulation: cells, groups and interactions\<close>

text \<open>
  The masked-array steps of \<open>Diffusion.set_dist_pre\<close>. A masked entry is a value and its
  mask bit. \<open>np.ma.divide\<close> also masks the entries outside the domain of the division
  and leaves the numerator there; \<open>filled\<close> puts the fill value at the masked entries.
\<close>

definition sqeuclidean :: "real list \<Rightarrow> real list \<Rightarrow> real" where
  "sqeuclidean u v = sum_list (map2 (\<lambda>a b. (a - b)\<^sup>2) u v)"

definition ma_array :: "real \<Rightarrow> bool \<Rightarrow> real \<times> bool" where
  "ma_array v m = (v, m)"

definition ma_divide :: "real \<Rightarrow> real \<times> bool \<Rightarrow> real \<times> bool" where
  "ma_divide a b = (if snd b \<or> fst b = 0 then (a, True) else (a / fst b, False))"

definition ma_filled :: "real \<Rightarrow> real \<times> bool \<Rightarrow> real" where
  "ma_filled fill_value e = (if snd e then fill_value else fst e)"

text \<open>
  \<open>pdist\<close> wants a two-axis array of positions: at least one cell, every position set,
  all of one length (ValueError otherwise). \<open>squareform\<close> gives the full matrix of squared
  distances.
\<close>

definition set_dist_pre :: "edge_model \<Rightarrow> cell list \<Rightarrow> error + edge_model" where
  "set_dist_pre m cs =
     (if cs = [] \<or> list_ex (\<lambda>c. position c = None) cs then Inl ValueError
      else
        (let pos = map (\<lambda>c. the (position c)) cs in
         if list_ex (\<lambda>p. length p \<noteq> length (hd pos)) pos then Inl ValueError
         else
           (let distances = map (\<lambda>u. map (\<lambda>v. sqeuclidean u v) pos) pos;
                masked_dists = map (map (\<lambda>d. ma_array d (d = 0))) distances;
                invert_dists = map (map (ma_divide 1)) masked_dists
            in Inr (m\<lparr>dist_pre := map (map (ma_filled 0)) invert_dists\<rparr>))))"

definition Diffusion_init ::
  "bool list list \<Rightarrow> cell list \<Rightarrow> real list option \<Rightarrow> error + edge_model" where
  "Diffusion_init connections cs params =
     ebind (init_params (new_model Diffusion 1 False None) params) (\<lambda>m.
     ebind (set_dist_pre m cs) (\<lambda>m'.
     Inr (m'\<lparr>cmask := map (map Not) connections\<rparr>)))"

text \<open>
  \<open>Diffusion.apply(x, im_bounds)\<close>. \<open>x\<close> is the working matrix as its list of rows, one
  row per cell of the evaluating group and one column per cell. The shapes of the slices
  of \<open>dist_pre\<close> and \<open>cmask\<close> must agree with the shape of \<open>x\<close>, and the diagonal must have
  one entry per row; a mismatch is a ValueError (numpy's MaskError when it is the mask
  that does not fit). The cases that numpy would accept by broadcasting an axis of
  length one, or by reshaping a mask that has the right number of entries, are not
  modelled apart.
\<close>

definition slice :: "nat \<Rightarrow> nat \<Rightarrow> 'a list \<Rightarrow> 'a list" where
  "slice lower upper xs = take (upper - lower) (drop lower xs)"

definition nsum :: "float list \<Rightarrow> float" where
  "nsum xs = foldr nadd xs (Fin 0)"

definition same_shape :: "'a list list \<Rightarrow> 'b list list \<Rightarrow> bool" where
  "same_shape a b = list_all2 (\<lambda>r s. length r = length s) a b"

definition Diffusion_apply :: "edge_model \<Rightarrow> float list list \<Rightarrow> nat \<times> nat \<Rightarrow> error + float list" where
  "Diffusion_apply m x im_bounds =
     (let lower = fst im_bounds; upper = snd im_bounds;
          diag_len = min (length x) (length (slice lower upper (if x = [] then [] else hd x)))
      in if list_ex (\<lambda>r. length r \<noteq> length (hd x)) x \<or> diag_len \<noteq> length x then Inl ValueError
         else
           (let inner_levels = map (\<lambda>i. x ! i ! (lower + i)) [0..<length x];
                level_diff = map2 (\<lambda>r own. map (\<lambda>v. nsub v own) r) x inner_levels
            in case prm_C m of
                 None \<Rightarrow> Inl AttributeError
               | Some c \<Rightarrow>
                   (let pre = slice lower upper (dist_pre m);
                        cmask_slice = slice lower upper (cmask m)
                    in if \<not> same_shape pre level_diff \<or> \<not> same_shape cmask_slice level_diff
                       then Inl ValueError
                       else
                         (let diff_contribs =
                                map2 (\<lambda>ps ds. map2 (\<lambda>p d. nmul (nmul (Fin c) (Fin p)) d) ps ds)
                                  pre level_diff;
                              masked_contribs =
                                map2 (\<lambda>cs ms. map2 (\<lambda>v b. if b then Fin 0 else v) cs ms)
                                  diff_contribs cmask_slice
                          in Inr (map nsum masked_contribs)))))"

record interaction = link +
  to_IM :: "nat option"
  int_id :: nat

definition Interaction_init ::
  "string \<Rightarrow> target \<Rightarrow> edge_model option \<Rightarrow> nat \<Rightarrow> nat option \<Rightarrow> error + interaction" where
  "Interaction_init src tgt mo iid im_id =
     (case mo of
        None \<Rightarrow> Inl AttributeError
      | Some m \<Rightarrow>
          Inr \<lparr>from_node = src,
               to_node = (if edge_model.is_mod m then None else Some tgt),
               to_edge = (if edge_model.is_mod m then Some tgt else None),
               is_mod = edge_model.is_mod m,
               mod_type = edge_model.mod_type m,
               model = m,
               external = True,
               to_IM = (if edge_model.is_mod m then im_id else None),
               int_id = iid\<rparr>)"

record simulation =
  cells :: "cell list"
  IMs :: "internal_model list"
  IM_cells :: "nat list list"
  IM_bounds :: "(nat \<times> nat) list"
  interactions :: "interaction list"
  int_counter :: nat

definition Simulation_init :: simulation where
  "Simulation_init =
     \<lparr>cells = [], IMs = [], IM_cells = [], IM_bounds = [], interactions = [], int_counter = 0\<rparr>"

definition add_cell :: "simulation \<Rightarrow> cell \<Rightarrow> simulation \<times> nat" where
  "add_cell sim c =
     (let cid = length (cells sim @ [c]) - 1
      in (sim\<lparr>cells := cells sim @ [set_cell_id c cid]\<rparr>, cid))"

definition add_internal_model :: "simulation \<Rightarrow> internal_model \<Rightarrow> simulation \<times> nat" where
  "add_internal_model sim im =
     (let im_id = length (IMs sim @ [im]) - 1
      in (sim\<lparr>IMs := IMs sim @ [im], IM_cells := IM_cells sim @ [[]]\<rparr>, im_id))"

text \<open>
  \<open>set_internal_model\<close>: the comprehension reads every cell first (IndexError on an unknown
  id); then each cell is given the model; then the ids are appended to the group.
\<close>

definition set_internal_model ::
  "simulation \<Rightarrow> nat list \<Rightarrow> nat \<Rightarrow> simulation \<times> (error + unit)" where
  "set_internal_model sim cell_id_list IM_id =
     (if list_ex (\<lambda>cid. \<not> cid < length (cells sim)) cell_id_list then (sim, Inl IndexError)
      else if cell_id_list \<noteq> [] \<and> \<not> IM_id < length (IMs sim) then (sim, Inl IndexError)
      else
        (let sim1 = sim\<lparr>cells := foldl (\<lambda>cs cid. cs[cid := set_IM (cs ! cid) (IMs sim ! IM_id)])
                                    (cells sim) cell_id_list\<rparr>
         in if \<not> IM_id < length (IM_cells sim1) then (sim1, Inl IndexError)
            else (sim1\<lparr>IM_cells := (IM_cells sim1)[IM_id := IM_cells sim1 ! IM_id @ cell_id_list]\<rparr>,
                  Inr ())))"

text \<open>
  \<open>set_initial_conditions\<close>: a cell whose \<open>set_IC\<close> only prints a message does not stop the
  loop; a KeyError does.
\<close>

fun set_IC_each ::
  "cell list \<Rightarrow> nat list \<Rightarrow> (string \<times> real) list \<Rightarrow> cell list \<times> (error + unit)" where
  "set_IC_each cs [] d = (cs, Inr ())"
| "set_IC_each cs (cid # rest) d =
     (case set_IC (cs ! cid) d of
        (c', Inl KeyError) \<Rightarrow> (cs[cid := c'], Inl KeyError)
      | (c', r) \<Rightarrow> set_IC_each (cs[cid := c']) rest d)"

definition set_initial_conditions ::
  "simulation \<Rightarrow> nat list \<Rightarrow> (string \<times> real) list \<Rightarrow> simulation \<times> (error + unit)" where
  "set_initial_conditions sim cell_id_list d =
     (if list_ex (\<lambda>cid. \<not> cid < length (cells sim)) cell_id_list then (sim, Inl IndexError)
      else (case set_IC_each (cells sim) cell_id_list d of (cs, r) \<Rightarrow> (sim\<lparr>cells := cs\<rparr>, r)))"

definition get_int_model ::
  "simulation \<Rightarrow> string \<Rightarrow> bool list list \<Rightarrow> bool \<Rightarrow> string option \<Rightarrow> real list option
     \<Rightarrow> error + edge_model option"
where
  "get_int_model sim ty connections im_flag mt params =
     (if ty = ''diffusion''
      then ebind (Diffusion_init connections (cells sim) params) (\<lambda>m. Inr (Some m))
      else Inr None)"

definition add_interaction ::
  "simulation \<Rightarrow> string \<Rightarrow> target \<Rightarrow> string \<Rightarrow> bool list list \<Rightarrow> nat option \<Rightarrow> bool
     \<Rightarrow> string option \<Rightarrow> real list option \<Rightarrow> simulation \<times> (error + nat)"
where
  "add_interaction sim src tgt ty connections IM_id im_flag mt params =
     (let iid = int_counter sim;
          sim1 = sim\<lparr>int_counter := int_counter sim + 1\<rparr>
      in case ebind (get_int_model sim1 ty connections im_flag mt params)
                (\<lambda>mo. Interaction_init src tgt mo iid IM_id) of
           Inl e \<Rightarrow> (sim1, Inl e)
         | Inr new_interaction \<Rightarrow>
             (sim1\<lparr>interactions := interactions sim1 @ [new_interaction]\<rparr>, Inr iid))"

definition num_cells :: "simulation \<Rightarrow> nat" where
  "num_cells sim = length (cells sim)"

text \<open>
  \<open>simulation_ready\<close>: the three checks of the source, in its order. Each \<open>reduce\<close> raises
  a TypeError on an empty list.
\<close>

definition simulation_ready :: "simulation \<Rightarrow> error + bool" where
  "simulation_ready sim =
     ebind (reduce_and (map (\<lambda>c. IM c \<noteq> None) (cells sim))) (\<lambda>cells_IM_ready.
     if \<not> cells_IM_ready then Inr False
     else
       ebind (reduce_and (map (\<lambda>c. IC c \<noteq> None) (cells sim))) (\<lambda>cells_IC_ready.
       if \<not> cells_IC_ready then Inr False
       else
         ebind (reduce_and (map all_params_set (IMs sim))) (\<lambda>IM_params_ready.
         if \<not> IM_params_ready then Inr False else Inr True)))"

fun cell_bounds :: "nat \<Rightarrow> nat list \<Rightarrow> (nat \<times> nat) list" where
  "cell_bounds low [] = []"
| "cell_bounds low (n # ncells) = (low, n + low) # cell_bounds (low + n) ncells"

definition set_cell_bounds :: "simulation \<Rightarrow> simulation" where
  "set_cell_bounds sim = sim\<lparr>IM_bounds := cell_bounds 0 (map length (IM_cells sim))\<rparr>"

definition get_contributions :: "simulation \<Rightarrow> string \<Rightarrow> interaction list" where
  "get_contributions sim nm = filter (\<lambda>i. to_node i = Some (NodeName nm)) (interactions sim)"

text \<open>
  \<open>Simulation.get_modifiers\<close> tests \<open>i.to_edge==to_edge and i.IM_id==IM_id\<close>. An
  \<open>Interaction\<close> has no attribute \<open>IM_id\<close> (its constructor stores that argument as
  \<open>to_IM\<close>), so the second conjunct raises AttributeError as soon as the first one holds.
\<close>

definition IM_id_attr :: "interaction \<Rightarrow> error + nat option" where
  "IM_id_attr i = Inl AttributeError"

fun get_modifiers_comp :: "interaction list \<Rightarrow> nat \<Rightarrow> nat option \<Rightarrow> error + interaction list" where
  "get_modifiers_comp [] eid IM_id = Inr []"
| "get_modifiers_comp (i # rest) eid IM_id =
     (if to_edge i = Some (EdgeId eid)
      then ebind (IM_id_attr i) (\<lambda>a.
           ebind (get_modifiers_comp rest eid IM_id) (\<lambda>found.
           Inr (if a = IM_id then i # found else found)))
      else get_modifiers_comp rest eid IM_id)"

definition get_modifiers :: "simulation \<Rightarrow> nat \<Rightarrow> nat option \<Rightarrow> error + interaction list" where
  "get_modifiers sim eid IM_id = get_modifiers_comp (interactions sim) eid IM_id"

section \<open>The contribution resolver and the derivative\<close>

text \<open>
  A contribution is an \<open>Edge\<close> or an \<open>Interaction\<close>. The resolver reads the attributes it
  needs from whichever object it was given; an attribute that the object's class does not
  have is an AttributeError.
\<close>

datatype contrib = EdgeC edge | InteractionC interaction

fun c_external :: "contrib \<Rightarrow> bool" where
  "c_external (EdgeC e) = external e"
| "c_external (InteractionC i) = external i"

fun c_from_node :: "contrib \<Rightarrow> string" where
  "c_from_node (EdgeC e) = from_node e"
| "c_from_node (InteractionC i) = from_node i"

fun c_mod_type :: "contrib \<Rightarrow> string option" where
  "c_mod_type (EdgeC e) = link.mod_type e"
| "c_mod_type (InteractionC i) = link.mod_type i"

fun c_model :: "contrib \<Rightarrow> edge_model" where
  "c_model (EdgeC e) = model e"
| "c_model (InteractionC i) = model i"

fun c_int_id :: "contrib \<Rightarrow> error + nat" where
  "c_int_id (EdgeC e) = Inl AttributeError"
| "c_int_id (InteractionC i) = Inr (int_id i)"

fun c_edge_id :: "contrib \<Rightarrow> error + nat" where
  "c_edge_id (EdgeC e) = Inr (edge_id e)"
| "c_edge_id (InteractionC i) = Inl AttributeError"

text \<open>
  The loop that builds \<open>xdata\<close>: for every internal model, the column of the source
  species of its group, or one NaN per cell of the group when the model has no such
  species.
\<close>

fun gather_xdata ::
  "simulation \<Rightarrow> string \<Rightarrow> float matrix list \<Rightarrow> nat list \<Rightarrow> float list \<Rightarrow> error + float list" where
  "gather_xdata sim src ycurrent [] xdata = Inr xdata"
| "gather_xdata sim src ycurrent (i # rest) xdata =
     (if map_of (node_names (IMs sim ! i)) src \<noteq> None
      then ebind (get_node_id (IMs sim ! i) src) (\<lambda>from_id.
           ebind (nth_err ycurrent i) (\<lambda>yc.
           ebind (column yc from_id) (\<lambda>col.
           gather_xdata sim src ycurrent rest (xdata @ col))))
      else ebind (nth_err (IM_cells sim) i) (\<lambda>group.
           gather_xdata sim src ycurrent rest (xdata @ replicate (length group) NaN)))"

text \<open>
  \<open>np.dot(np.diag(v), x)\<close>: the matrix product of the diagonal matrix of \<open>v\<close> with \<open>x\<close>
  (ValueError unless \<open>v\<close> has one entry per row of \<open>x\<close>).
\<close>

definition dot_diag :: "float list \<Rightarrow> float list list \<Rightarrow> error + float list list" where
  "dot_diag v x =
     (if length v \<noteq> length x then Inl ValueError
      else Inr (map (\<lambda>i. map (\<lambda>j. nsum (map (\<lambda>k. nmul (if i = k then v ! i else Fin 0) (x ! k ! j))
                                          [0..<length x]))
                          [0..<length (x ! i)])
                 [0..<length v]))"

text \<open>
  Line 494 of the source calls \<open>resolve_contribution(mod,ycurrent,IM_id)\<close> without
  \<open>self.\<close>: a global name that no module defines, so looking it up is a NameError.
\<close>

definition global_resolve_contribution ::
  "error + (contrib \<Rightarrow> float matrix list \<Rightarrow> nat \<Rightarrow> error + float list)" where
  "global_resolve_contribution = Inl NameError"

fun ext_intern_mods ::
  "interaction list \<Rightarrow> float matrix list \<Rightarrow> nat \<Rightarrow> float list list \<Rightarrow> error + float list list" where
  "ext_intern_mods [] ycurrent IM_id xcontrib = Inr xcontrib"
| "ext_intern_mods (m # rest) ycurrent IM_id xcontrib =
     (if link.mod_type m = Some ''intern''
      then ebind global_resolve_contribution (\<lambda>resolve.
           ebind (resolve (InteractionC m) ycurrent IM_id) (\<lambda>mod_contrib.
           ebind (dot_diag mod_contrib xcontrib) (\<lambda>xcontrib'.
           ext_intern_mods rest ycurrent IM_id xcontrib')))
      else ext_intern_mods rest ycurrent IM_id xcontrib)"

text \<open>
  The two modifier loops \<open>for mod in mods: if mod.mod_type == ty: acc *= resolve(mod)\<close>,
  with the recursive call as a parameter.
\<close>

fun apply_mods ::
  "(contrib \<Rightarrow> error + float list) \<Rightarrow> string \<Rightarrow> contrib list \<Rightarrow> float list \<Rightarrow> error + float list" where
  "apply_mods resolve ty [] acc = Inr acc"
| "apply_mods resolve ty (m # rest) acc =
     (if c_mod_type m = Some ty
      then ebind (resolve m) (\<lambda>v.
           ebind (inplace nmul acc v) (\<lambda>acc'.
           apply_mods resolve ty rest acc'))
      else apply_mods resolve ty rest acc)"

text \<open>
  \<open>contrib.model.apply(xcontrib, bounds)\<close> on an external contribution: only a
  \<open>Diffusion\<close> takes the bounds; the other terms take one argument (TypeError).
\<close>

definition apply_external :: "edge_model \<Rightarrow> float list list \<Rightarrow> nat \<times> nat \<Rightarrow> error + float list" where
  "apply_external m x b = (if kind m = Diffusion then Diffusion_apply m x b else Inl TypeError)"

text \<open>
  \<open>resolve_contribution\<close>. The first argument is the number of stack frames left
  before Python's recursion limit: the modifier graph is not checked for cycles.
\<close>

fun resolve_contribution ::
  "nat \<Rightarrow> simulation \<Rightarrow> contrib \<Rightarrow> float matrix list \<Rightarrow> nat \<Rightarrow> error + float list" where
  "resolve_contribution 0 sim contrib ycurrent IM_id = Inl RuntimeError"
| "resolve_contribution (Suc depth) sim contrib ycurrent IM_id =
     (if c_external contrib then
        ebind (c_int_id contrib) (\<lambda>iid.
        ebind (get_modifiers sim iid None) (\<lambda>ext_mods.
        ebind (gather_xdata sim (c_from_node contrib) ycurrent [0..<length (IMs sim)] []) (\<lambda>xdata.
        ebind (nth_err (IM_cells sim) IM_id) (\<lambda>group.
        ebind (ext_intern_mods ext_mods ycurrent IM_id (replicate (length group) xdata)) (\<lambda>xcontrib.
        ebind (nth_err (IM_bounds sim) IM_id) (\<lambda>bounds.
        ebind (apply_external (c_model contrib) xcontrib bounds) (\<lambda>ycontrib.
        apply_mods (\<lambda>m. resolve_contribution depth sim m ycurrent IM_id) ''mult''
          (map InteractionC ext_mods) ycontrib)))))))
      else
        ebind (nth_err (IMs sim) IM_id) (\<lambda>im.
        ebind (c_edge_id contrib) (\<lambda>eid.
        ebind (get_modifiers sim eid (Some IM_id)) (\<lambda>ext_mods.
        ebind (get_node_id im (c_from_node contrib)) (\<lambda>from_id.
        ebind (nth_err ycurrent IM_id) (\<lambda>yc.
        ebind (column yc from_id) (\<lambda>xcontrib.
        let mods = map EdgeC (IM_get_modifiers im eid) @ map InteractionC ext_mods in
        ebind (apply_mods (\<lambda>m. resolve_contribution depth sim m ycurrent IM_id) ''intern''
                 mods xcontrib) (\<lambda>xcontrib'.
        ebind (apply_term (c_model contrib) xcontrib') (\<lambda>ycontrib.
        apply_mods (\<lambda>m. resolve_contribution depth sim m ycurrent IM_id) ''mult''
          mods ycontrib)))))))))"

text \<open>The bounds of \<open>deriv\<close>: \<open>[0] + [a*b for (a,b) in IM_dims]\<close>, summed cumulatively.\<close>

fun cumulative :: "nat \<Rightarrow> nat list \<Rightarrow> nat list" where
  "cumulative prev [] = []"
| "cumulative prev (x # xs) = (x + prev) # cumulative (x + prev) xs"

definition deriv_bounds :: "(nat \<times> nat) list \<Rightarrow> nat list" where
  "deriv_bounds IM_dims = 0 # cumulative 0 (map (\<lambda>(a, b). a * b) IM_dims)"

text \<open>\<open>y[lo:hi].reshape(dims)\<close>: ValueError unless the slice has \<open>a * b\<close> entries.\<close>

definition reshape_slice :: "float list \<Rightarrow> nat \<Rightarrow> nat \<Rightarrow> nat \<times> nat \<Rightarrow> error + float matrix" where
  "reshape_slice y lo hi dims =
     (if length (slice lo hi y) = fst dims * snd dims
      then Inr \<lparr>nrows = fst dims, ncols = snd dims, dat = slice lo hi y\<rparr>
      else Inl ValueError)"

definition zeros :: "nat \<times> nat \<Rightarrow> float matrix" where
  "zeros dims = \<lparr>nrows = fst dims, ncols = snd dims, dat = replicate (fst dims * snd dims) (Fin 0)\<rparr>"

text \<open>\<open>m[:, j] += v\<close>: the column is read, added to in place and so written back.\<close>

definition set_column :: "float matrix \<Rightarrow> nat \<Rightarrow> float list \<Rightarrow> float matrix" where
  "set_column m j col =
     m\<lparr>dat := map (\<lambda>k. if k mod ncols m = j then col ! (k div ncols m) else dat m ! k)
                  [0..<length (dat m)]\<rparr>"

definition add_column :: "float matrix \<Rightarrow> nat \<Rightarrow> float list \<Rightarrow> error + float matrix" where
  "add_column m j v =
     ebind (column m j) (\<lambda>col. ebind (inplace nadd col v) (\<lambda>col'. Inr (set_column m j col')))"

definition contributions_of :: "simulation \<Rightarrow> nat \<Rightarrow> nat \<Rightarrow> contrib list" where
  "contributions_of sim i j =
     (let cnodes = get_node_names (IMs sim ! i)
      in map EdgeC (IM_get_contributions (IMs sim ! i) (cnodes ! j))
         @ map InteractionC (get_contributions sim (cnodes ! j)))"

fun accumulate ::
  "(contrib \<Rightarrow> error + float list) \<Rightarrow> contrib list \<Rightarrow> nat \<Rightarrow> float matrix \<Rightarrow> error + float matrix" where
  "accumulate resolve [] j yp = Inr yp"
| "accumulate resolve (c # rest) j yp =
     ebind (resolve c) (\<lambda>v. ebind (add_column yp j v) (\<lambda>yp'. accumulate resolve rest j yp'))"

fun deriv_species ::
  "(nat \<Rightarrow> contrib \<Rightarrow> error + float list) \<Rightarrow> simulation \<Rightarrow> nat \<Rightarrow> nat list \<Rightarrow> float matrix
     \<Rightarrow> error + float matrix" where
  "deriv_species resolve sim i [] yp = Inr yp"
| "deriv_species resolve sim i (j # rest) yp =
     ebind (accumulate (resolve i) (contributions_of sim i j) j yp) (\<lambda>yp'.
     deriv_species resolve sim i rest yp')"

fun deriv_groups ::
  "(nat \<Rightarrow> contrib \<Rightarrow> error + float list) \<Rightarrow> simulation \<Rightarrow> nat list \<Rightarrow> float matrix list
     \<Rightarrow> error + float matrix list" where
  "deriv_groups resolve sim [] yprime = Inr yprime"
| "deriv_groups resolve sim (i # rest) yprime =
     ebind (deriv_species resolve sim i [0..<num_nodes (IMs sim ! i)] (yprime ! i)) (\<lambda>yp.
     deriv_groups resolve sim rest (yprime[i := yp]))"

text \<open>\<open>reduce(lambda x,y: np.append(x,y), arrays)\<close>: a TypeError on the empty list.\<close>

definition reduce_append :: "'a list list \<Rightarrow> error + 'a list" where
  "reduce_append xss = (case xss of [] \<Rightarrow> Inl TypeError | xs # rest \<Rightarrow> Inr (foldl (@) xs rest))"

definition deriv :: "nat \<Rightarrow> simulation \<Rightarrow> float list \<Rightarrow> real \<Rightarrow> error + float list" where
  "deriv depth sim y t =
     ebind (emap (\<lambda>i. ebind (nth_err (IM_cells sim) i) (\<lambda>g. Inr (length g)))
              [0..<length (IMs sim)]) (\<lambda>IM_ncells.
     let IM_nspecies = map num_nodes (IMs sim);
         IM_dims = zip IM_ncells IM_nspecies;
         bounds = deriv_bounds IM_dims
     in ebind (emap (\<lambda>i. reshape_slice y (bounds ! i) (bounds ! (i + 1)) (IM_dims ! i))
                 [0..<length IM_dims]) (\<lambda>ycurrent.
        ebind (deriv_groups (\<lambda>i c. resolve_contribution depth sim c ycurrent i) sim
                 [0..<length (IMs sim)] (map zeros IM_dims)) (\<lambda>yprime.
        reduce_append (map dat yprime))))"

text \<open>
  \<open>simulate\<close>, with the integrator as a parameter: it is given the derivative function,
  the initial vector and the time points, and returns one state vector per time point
  (or the exception that escaped from the derivative). The result is \<open>None\<close> when the
  readiness check fails, and otherwise one time series per cell.
\<close>

type_synonym integrator =
  "(float list \<Rightarrow> real \<Rightarrow> error + float list) \<Rightarrow> float list \<Rightarrow> real list \<Rightarrow> error + float list list"

text \<open>
  \<open>yinitial[i][j,:] = cell.IC\<close>: a row of \<open>ncols\<close> entries is assigned an array
  (numpy casts \<open>None\<close> to NaN).
\<close>

definition assign_row :: "nat \<Rightarrow> float list option \<Rightarrow> error + float list" where
  "assign_row n ic =
     (case ic of
        None \<Rightarrow> Inr (replicate n NaN)
      | Some v \<Rightarrow>
          if length v = n then Inr v
          else if length v = 1 then Inr (replicate n (v ! 0))
          else Inl ValueError)"

definition initial_group :: "simulation \<Rightarrow> nat \<Rightarrow> error + float list" where
  "initial_group sim i =
     ebind (nth_err (IM_cells sim) i) (\<lambda>group.
     ebind (emap (\<lambda>cid. ebind (nth_err (cells sim) cid) (\<lambda>c.
                   assign_row (num_nodes (IMs sim ! i)) (IC c))) group) (\<lambda>rows.
     Inr (concat rows)))"

definition initial_state :: "simulation \<Rightarrow> error + float list" where
  "initial_state sim =
     ebind (emap (initial_group sim) [0..<length (IMs sim)]) (\<lambda>flat_yinitial.
     reduce_append flat_yinitial)"

text \<open>
  The unpacking loop: the columns \<open>sol_index .. sol_index + nspecies\<close> of the solution go
  to the next cell of the group (IndexError when the cell id is not a cell).
\<close>

fun unpack_cells ::
  "float list list \<Rightarrow> nat \<Rightarrow> nat \<Rightarrow> nat list \<Rightarrow> float list list option list
     \<Rightarrow> error + (nat \<times> float list list option list)" where
  "unpack_cells sol ns sol_index [] cdata = Inr (sol_index, cdata)"
| "unpack_cells sol ns sol_index (cid # rest) cdata =
     (if \<not> cid < length cdata then Inl IndexError
      else unpack_cells sol ns (sol_index + ns) rest
             (cdata[cid := Some (map (slice sol_index (sol_index + ns)) sol)]))"

fun unpack_groups ::
  "simulation \<Rightarrow> float list list \<Rightarrow> nat \<Rightarrow> nat list \<Rightarrow> float list list option list
     \<Rightarrow> error + float list list option list" where
  "unpack_groups sim sol sol_index [] cdata = Inr cdata"
| "unpack_groups sim sol sol_index (i # rest) cdata =
     ebind (nth_err (IM_cells sim) i) (\<lambda>group.
     ebind (unpack_cells sol (num_nodes (IMs sim ! i)) sol_index group cdata) (\<lambda>r.
     unpack_groups sim sol (fst r) rest (snd r)))"

definition simulate ::
  "nat \<Rightarrow> simulation \<Rightarrow> integrator \<Rightarrow> real list
     \<Rightarrow> simulation \<times> (error + float list list option list option)" where
  "simulate depth sim odeint t =
     (case simulation_ready sim of
        Inl e \<Rightarrow> (sim, Inl e)
      | Inr ready \<Rightarrow>
          if \<not> ready then (sim, Inr None)
          else
            (let sim1 = set_cell_bounds sim
             in (sim1,
                 ebind (initial_state sim1) (\<lambda>y0.
                 ebind (odeint (deriv depth sim1) y0 t) (\<lambda>sol.
                 ebind (unpack_groups sim1 sol 0 [0..<length (IMs sim1)]
                          (map (\<lambda>c. None) (cells sim1))) (\<lambda>cdata.
                 Inr (Some cdata)))))))"

section \<open>Arrays on a heap: views, copies and in-place updates\<close>

text \<open>
  The definitions above compute with array values. Whether the derivative function
  changes the state vector it is given depends on which numpy arrays share a buffer, so
  the resolver and the derivative are modelled a second time with the arrays on a heap:
  a heap is the list of the allocated buffers; a one-axis array is the buffer it lives in
  and the positions of its elements there; a two-axis array is a contiguous row-major
  block of a buffer. Basic slicing (\<open>y[lo:hi]\<close>, \<open>reshape\<close>, \<open>m[:, j]\<close>) gives a view of the
  same buffer; \<open>np.copy\<close>, \<open>np.append\<close>, \<open>np.tile\<close>, \<open>np.zeros\<close>, \<open>flatten\<close>, the
  arithmetic of the terms and \<open>np.sum\<close> allocate a new buffer; \<open>*=\<close> and \<open>+=\<close> write into
  the buffer of their left operand. The working matrix of the external branch is built
  by copying functions only and is never written in place; it is kept as a value.
\<close>

type_synonym heap = "float list list"

record ref1 =
  base :: nat
  idx :: "nat list"

record ref2 =
  base2 :: nat
  off :: nat
  rows :: nat
  cols :: nat

definition alloc :: "heap \<Rightarrow> float list \<Rightarrow> ref1 \<times> heap" where
  "alloc h xs = (\<lparr>base = length h, idx = [0..<length xs]\<rparr>, h @ [xs])"

definition read1 :: "heap \<Rightarrow> ref1 \<Rightarrow> float list" where
  "read1 h r = map (\<lambda>k. h ! base r ! k) (idx r)"

definition write1 :: "heap \<Rightarrow> ref1 \<Rightarrow> float list \<Rightarrow> heap" where
  "write1 h r vs = h[base r := fold (\<lambda>(k, v) b. b[k := v]) (zip (idx r) vs) (h ! base r)]"

definition read2 :: "heap \<Rightarrow> ref2 \<Rightarrow> float matrix" where
  "read2 h m =
     \<lparr>nrows = rows m, ncols = cols m,
      dat = map (\<lambda>k. h ! base2 m ! (off m + k)) [0..<rows m * cols m]\<rparr>"

text \<open>\<open>m[:, j]\<close> as a view.\<close>

definition col_view :: "ref2 \<Rightarrow> nat \<Rightarrow> error + ref1" where
  "col_view m j =
     (if j < cols m
      then Inr \<lparr>base = base2 m, idx = map (\<lambda>r. off m + r * cols m + j) [0..<rows m]\<rparr>
      else Inl IndexError)"

text \<open>\<open>a *= b\<close> and \<open>a += b\<close>: the new values are written into the buffer of \<open>a\<close>.\<close>

definition inplace_h ::
  "(float \<Rightarrow> float \<Rightarrow> float) \<Rightarrow> ref1 \<Rightarrow> ref1 \<Rightarrow> heap \<Rightarrow> (error + unit) \<times> heap" where
  "inplace_h f a b h =
     (case inplace f (read1 h a) (read1 h b) of
        Inl e \<Rightarrow> (Inl e, h)
      | Inr vs \<Rightarrow> (Inr (), write1 h a vs))"

fun apply_mods_h ::
  "(contrib \<Rightarrow> heap \<Rightarrow> (error + ref1) \<times> heap) \<Rightarrow> string \<Rightarrow> contrib list \<Rightarrow> ref1 \<Rightarrow> heap
     \<Rightarrow> (error + unit) \<times> heap" where
  "apply_mods_h resolve ty [] acc h = (Inr (), h)"
| "apply_mods_h resolve ty (m # rest) acc h =
     (if c_mod_type m = Some ty
      then (case resolve m h of
              (Inl e, h1) \<Rightarrow> (Inl e, h1)
            | (Inr v, h1) \<Rightarrow>
                (case inplace_h nmul acc v h1 of
                   (Inl e, h2) \<Rightarrow> (Inl e, h2)
                 | (Inr u, h2) \<Rightarrow> apply_mods_h resolve ty rest acc h2))
      else apply_mods_h resolve ty rest acc h)"

text \<open>
  \<open>resolve_contribution\<close> on the heap. In the internal branch the source column is a
  view of the state; \<open>np.copy\<close> allocates the buffer that the internal-type modifiers
  are multiplied into.
\<close>

fun resolve_h ::
  "nat \<Rightarrow> simulation \<Rightarrow> contrib \<Rightarrow> ref2 list \<Rightarrow> nat \<Rightarrow> heap \<Rightarrow> (error + ref1) \<times> heap" where
  "resolve_h 0 sim contrib ycurrent IM_id h = (Inl RuntimeError, h)"
| "resolve_h (Suc depth) sim contrib ycurrent IM_id h =
     (if c_external contrib then
        (case ebind (c_int_id contrib) (\<lambda>iid.
              ebind (get_modifiers sim iid None) (\<lambda>ext_mods.
              ebind (gather_xdata sim (c_from_node contrib) (map (read2 h) ycurrent)
                       [0..<length (IMs sim)] []) (\<lambda>xdata.
              ebind (nth_err (IM_cells sim) IM_id) (\<lambda>group.
              ebind (ext_intern_mods ext_mods (map (read2 h) ycurrent) IM_id
                       (replicate (length group) xdata)) (\<lambda>xcontrib.
              ebind (nth_err (IM_bounds sim) IM_id) (\<lambda>bounds.
              ebind (apply_external (c_model contrib) xcontrib bounds) (\<lambda>ycontrib.
              Inr (ext_mods, ycontrib)))))))) of
           Inl e \<Rightarrow> (Inl e, h)
         | Inr (ext_mods, yvals) \<Rightarrow>
             (case alloc h yvals of
                (ycontrib, h1) \<Rightarrow>
                  (case apply_mods_h (\<lambda>m. resolve_h depth sim m ycurrent IM_id) ''mult''
                          (map InteractionC ext_mods) ycontrib h1 of
                     (Inl e, h2) \<Rightarrow> (Inl e, h2)
                   | (Inr u, h2) \<Rightarrow> (Inr ycontrib, h2))))
      else
        (case ebind (nth_err (IMs sim) IM_id) (\<lambda>im.
              ebind (c_edge_id contrib) (\<lambda>eid.
              ebind (get_modifiers sim eid (Some IM_id)) (\<lambda>ext_mods.
              ebind (get_node_id im (c_from_node contrib)) (\<lambda>from_id.
              ebind (nth_err ycurrent IM_id) (\<lambda>yc.
              ebind (col_view yc from_id) (\<lambda>view.
              Inr (map EdgeC (IM_get_modifiers im eid) @ map InteractionC ext_mods, view))))))) of
           Inl e \<Rightarrow> (Inl e, h)
         | Inr (mods, view) \<Rightarrow>
             (case alloc h (read1 h view) of
                (xcontrib, h1) \<Rightarrow>
                  (case apply_mods_h (\<lambda>m. resolve_h depth sim m ycurrent IM_id) ''intern''
                          mods xcontrib h1 of
                     (Inl e, h2) \<Rightarrow> (Inl e, h2)
                   | (Inr u, h2) \<Rightarrow>
                       (case apply_term (c_model contrib) (read1 h2 xcontrib) of
                          Inl e \<Rightarrow> (Inl e, h2)
                        | Inr yvals \<Rightarrow>
                            (case alloc h2 yvals of
                               (ycontrib, h3) \<Rightarrow>
                                 (case apply_mods_h (\<lambda>m. resolve_h depth sim m ycurrent IM_id)
                                         ''mult'' mods ycontrib h3 of
                                    (Inl e, h4) \<Rightarrow> (Inl e, h4)
                                  | (Inr u, h4) \<Rightarrow> (Inr ycontrib, h4))))))))"

text \<open>The accumulation loops of \<open>deriv\<close>, with \<open>yprime[i][:,j] += ...\<close> as a write.\<close>

fun accumulate_h ::
  "(contrib \<Rightarrow> heap \<Rightarrow> (error + ref1) \<times> heap) \<Rightarrow> contrib list \<Rightarrow> nat \<Rightarrow> ref2 \<Rightarrow> heap
     \<Rightarrow> (error + unit) \<times> heap" where
  "accumulate_h resolve [] j yp h = (Inr (), h)"
| "accumulate_h resolve (c # rest) j yp h =
     (case resolve c h of
        (Inl e, h1) \<Rightarrow> (Inl e, h1)
      | (Inr v, h1) \<Rightarrow>
          (case col_view yp j of
             Inl e \<Rightarrow> (Inl e, h1)
           | Inr col \<Rightarrow>
               (case inplace_h nadd col v h1 of
                  (Inl e, h2) \<Rightarrow> (Inl e, h2)
                | (Inr u, h2) \<Rightarrow> accumulate_h resolve rest j yp h2)))"

fun deriv_species_h ::
  "(nat \<Rightarrow> contrib \<Rightarrow> heap \<Rightarrow> (error + ref1) \<times> heap) \<Rightarrow> simulation \<Rightarrow> nat \<Rightarrow> nat list \<Rightarrow> ref2
     \<Rightarrow> heap \<Rightarrow> (error + unit) \<times> heap" where
  "deriv_species_h resolve sim i [] yp h = (Inr (), h)"
| "deriv_species_h resolve sim i (j # rest) yp h =
     (case accumulate_h (resolve i) (contributions_of sim i j) j yp h of
        (Inl e, h1) \<Rightarrow> (Inl e, h1)
      | (Inr u, h1) \<Rightarrow> deriv_species_h resolve sim i rest yp h1)"

fun deriv_groups_h ::
  "(nat \<Rightarrow> contrib \<Rightarrow> heap \<Rightarrow> (error + ref1) \<times> heap) \<Rightarrow> simulation \<Rightarrow> nat list \<Rightarrow> ref2 list
     \<Rightarrow> heap \<Rightarrow> (error + unit) \<times> heap" where
  "deriv_groups_h resolve sim [] yprime h = (Inr (), h)"
| "deriv_groups_h resolve sim (i # rest) yprime h =
     (case deriv_species_h resolve sim i [0..<num_nodes (IMs sim ! i)] (yprime ! i) h of
        (Inl e, h1) \<Rightarrow> (Inl e, h1)
      | (Inr u, h1) \<Rightarrow> deriv_groups_h resolve sim rest yprime h1)"

text \<open>\<open>np.zeros(dims)\<close> for every group, one new buffer each.\<close>

fun alloc_zeros :: "(nat \<times> nat) list \<Rightarrow> heap \<Rightarrow> ref2 list \<times> heap" where
  "alloc_zeros [] h = ([], h)"
| "alloc_zeros (d # ds) h =
     (case alloc_zeros ds (h @ [replicate (fst d * snd d) (Fin 0)]) of
        (refs, h') \<Rightarrow> (\<lparr>base2 = length h, off = 0, rows = fst d, cols = snd d\<rparr> # refs, h'))"

text \<open>
  \<open>deriv(y, t)\<close> for the state vector in the buffer \<open>yaddr\<close>: the per-group arrays of
  \<open>ycurrent\<close> are views of that buffer. The source takes the view of a group and
  allocates its zero matrix in the same pass of one loop; here the views are taken
  first. The arrays and the exception are the same; only the zero matrices that the
  source has already allocated when a later reshape fails are not on the heap.
\<close>

definition deriv_h :: "nat \<Rightarrow> simulation \<Rightarrow> nat \<Rightarrow> real \<Rightarrow> heap \<Rightarrow> (error + ref1) \<times> heap" where
  "deriv_h depth sim yaddr t h =
     (case ebind (emap (\<lambda>i. ebind (nth_err (IM_cells sim) i) (\<lambda>g. Inr (length g)))
                    [0..<length (IMs sim)]) (\<lambda>IM_ncells.
           let IM_nspecies = map num_nodes (IMs sim);
               IM_dims = zip IM_ncells IM_nspecies;
               bounds = deriv_bounds IM_dims
           in ebind (emap (\<lambda>i. if length (slice (bounds ! i) (bounds ! (i + 1)) (h ! yaddr))
                                      = fst (IM_dims ! i) * snd (IM_dims ! i)
                                 then Inr \<lparr>base2 = yaddr, off = bounds ! i,
                                          rows = fst (IM_dims ! i), cols = snd (IM_dims ! i)\<rparr>
                                 else Inl ValueError)
                       [0..<length IM_dims]) (\<lambda>ycurrent.
              Inr (IM_dims, ycurrent))) of
        Inl e \<Rightarrow> (Inl e, h)
      | Inr (IM_dims, ycurrent) \<Rightarrow>
          (case alloc_zeros IM_dims h of
             (yprime, h1) \<Rightarrow>
               (case deriv_groups_h (\<lambda>i c. resolve_h depth sim c ycurrent i) sim
                       [0..<length (IMs sim)] yprime h1 of
                  (Inl e, h2) \<Rightarrow> (Inl e, h2)
                | (Inr u, h2) \<Rightarrow>
                    (case reduce_append (map (\<lambda>yp. dat (read2 h2 yp)) yprime) of
                       Inl e \<Rightarrow> (Inl e, h2)
                     | Inr flat \<Rightarrow> (case alloc h2 flat of (r, h3) \<Rightarrow> (Inr r, h3))))))"

text \<open>\<open>unchanged_below n h h'\<close>: the heap has only grown and its first \<open>n\<close> buffers are as before.\<close>

definition unchanged_below :: "nat \<Rightarrow> heap \<Rightarrow> heap \<Rightarrow> bool" where
  "unchanged_below n h h' = (length h \<le> length h' \<and> take n h' = take n h)"

text \<open>
  \<open>owns h r\<close>: the array \<open>r\<close> is a whole buffer of the heap (what an allocation
  returns); \<open>owns2\<close> is the same for a two-axis array. \<open>only_changed b h h'\<close>: the heap
  has only grown, and of the buffers it had, at most the buffer \<open>b\<close> has changed.
\<close>

definition owns :: "heap \<Rightarrow> ref1 \<Rightarrow> bool" where
  "owns h r = (base r < length h \<and> idx r = [0..<length (h ! base r)])"

definition owns2 :: "heap \<Rightarrow> ref2 \<Rightarrow> bool" where
  "owns2 h m = (base2 m < length h \<and> off m = 0 \<and> length (h ! base2 m) = rows m * cols m)"

definition only_changed :: "nat \<Rightarrow> heap \<Rightarrow> heap \<Rightarrow> bool" where
  "only_changed b h h' =
     (length h \<le> length h' \<and> list_all (\<lambda>a. a = b \<or> h' ! a = h ! a) [0..<length h])"

section \<open>Models built through the interface, and example configurations\<close>

text \<open>
  The internal models a caller can build: from the empty model, by the three mutating
  methods, whatever they return.
\<close>

inductive built :: "internal_model \<Rightarrow> bool" where
  built_init: "built InternalModel_init"
| built_add_node: "built im \<Longrightarrow> built (fst (add_node im nm deg params))"
| built_set_node_degradation:
    "built im \<Longrightarrow> built (fst (set_node_degradation im nm deg params))"
| built_add_edge: "built im \<Longrightarrow> built (fst (add_edge im src tgt ty im_flag mt params))"

definition ids_fresh :: "internal_model \<Rightarrow> bool" where
  "ids_fresh im =
     (distinct (map edge_id (edges im)) \<and> list_all (\<lambda>e. edge_id e < edge_counter im) (edges im))"

definition all_edge_ids :: "simulation \<Rightarrow> nat list" where
  "all_edge_ids sim = concat (map (\<lambda>im. map edge_id (edges im)) (IMs sim))"

text \<open>
  Two small models: species \<open>a\<close> with linear degradation and a linear self-activation,
  and species \<open>b\<close> with a constant production.
\<close>

definition im_a :: internal_model where
  "im_a =
     fst (add_edge (fst (add_node InternalModel_init ''a'' (Some ''linear'') (Some [1])))
            ''a'' (NodeName ''a'') ''lin_activ'' False None (Some [2]))"

definition im_b :: internal_model where
  "im_b =
     fst (add_edge (fst (add_node InternalModel_init ''b'' None None))
            ''b'' (NodeName ''b'') ''const_prod'' False None (Some [3]))"

definition sim_two_models :: simulation where
  "sim_two_models = fst (add_internal_model (fst (add_internal_model Simulation_init im_a)) im_b)"

text \<open>
  One cell at position 0 running \<open>im_a\<close>: registered and assigned its model
  (\<open>sim_no_IC\<close>), then given the initial condition \<open>a = 1\<close> (\<open>sim_one\<close>), then coupled
  to itself by a diffusion whose parameter is left unset (\<open>sim_unset\<close>).
\<close>

definition cell_a :: cell where
  "cell_a = set_IM (set_cell_id (Cell_init (Some [0])) 0) im_a"

definition sim_no_IC :: simulation where
  "sim_no_IC =
     (let (s1, cid) = add_cell Simulation_init (Cell_init (Some [0]));
          (s2, mid) = add_internal_model s1 im_a;
          (s3, r3) = set_internal_model s2 [cid] mid
      in s3)"

definition sim_one :: simulation where
  "sim_one = fst (set_initial_conditions sim_no_IC [0] [(''a'', 1)])"

definition sim_unset :: simulation where
  "sim_unset =
     fst (add_interaction sim_one ''a'' (NodeName ''a'') ''diffusion'' [[True]] None False None None)"

text \<open>A stand-in integrator that returns the initial vector at every time point.\<close>

definition hold :: integrator where
  "hold f y0 ts = Inr (map (\<lambda>t. y0) ts)"

text \<open>
  The two-compartment scenario: one species \<open>a\<close> without degradation, cells at the
  positions 0 and 1 with \<open>a = 1\<close> and \<open>a = 0\<close>, coupled by a diffusion of rate 1 over
  the adjacency \<open>[[0,1],[1,0]]\<close>. \<open>diff_pair\<close> is the interaction that
  \<open>add_interaction\<close> creates.
\<close>

definition im_plain :: internal_model where
  "im_plain = fst (add_node InternalModel_init ''a'' None None)"

definition sim_pair_cells :: simulation where
  "sim_pair_cells =
     (let (s1, c0) = add_cell Simulation_init (Cell_init (Some [0]));
          (s2, c1) = add_cell s1 (Cell_init (Some [1]));
          (s3, mid) = add_internal_model s2 im_plain;
          (s4, r4) = set_internal_model s3 [c0, c1] mid;
          (s5, r5) = set_initial_conditions s4 [c0] [(''a'', 1)];
          (s6, r6) = set_initial_conditions s5 [c1] [(''a'', 0)]
      in s6)"

definition sim_pair :: simulation where
  "sim_pair =
     set_cell_bounds
       (fst (add_interaction sim_pair_cells ''a'' (NodeName ''a'') ''diffusion''
               [[False, True], [True, False]] None False None (Some [1])))"

definition diff_pair :: interaction where
  "diff_pair =
     projr (Interaction_init ''a'' (NodeName ''a'')
              (Some (projr (Diffusion_init [[False, True], [True, False]] (cells sim_pair_cells)
                              (Some [1])))) 0 None)"

definition y_pair :: "float matrix list" where
  "y_pair = [\<lparr>nrows = 2, ncols = 1, dat = [Fin 1, Fin 0]\<rparr>]"

text \<open>
  Modifier interactions. \<open>add_interaction\<close> cannot create one (a \<open>Diffusion\<close> is never a
  modifier), so they are constructed with \<open>Interaction\<close> directly and appended to the list
  of interactions: a modifier of the interaction with id 0, of internal and of
  multiplicative type, and a modifier of the edge with id 0 of the group 0.
\<close>

definition mod_intern :: interaction where
  "mod_intern =
     projr (Interaction_init ''a'' (EdgeId 0)
              (Some (projr (LinearActivation_init True (Some ''intern'') (Some [2])))) 1 None)"

definition mod_mult :: interaction where
  "mod_mult =
     projr (Interaction_init ''a'' (EdgeId 0)
              (Some (projr (LinearActivation_init True (Some ''mult'') (Some [2])))) 1 None)"

definition mod_on_edge :: interaction where
  "mod_on_edge =
     projr (Interaction_init ''u'' (EdgeId 0)
              (Some (projr (LinearActivation_init True (Some ''intern'') (Some [2])))) 0 (Some 0))"

definition sim_pair_intern :: simulation where
  "sim_pair_intern =
     sim_pair\<lparr>interactions := interactions sim_pair @ [mod_intern], int_counter := 2\<rparr>"

definition sim_pair_mult :: simulation where
  "sim_pair_mult =
     sim_pair\<lparr>interactions := interactions sim_pair @ [mod_mult], int_counter := 2\<rparr>"

text \<open>
  A model with modifier edges: the Hill activation \<open>a \<rightarrow> a\<close> (edge 0) is modified by
  \<open>u\<close> through an internal-type linear modifier of rate 3 (edge 1) and a multiplicative
  linear modifier of rate 5 (edge 2). One cell runs it, with \<open>a = 1\<close> and \<open>u = 2\<close>.
\<close>

definition im_mod :: internal_model where
  "im_mod =
     (let (m1, r1) = add_node InternalModel_init ''a'' None None;
          (m2, r2) = add_node m1 ''u'' None None;
          (m3, e0) = add_edge m2 ''a'' (NodeName ''a'') ''hill_activ'' False None (Some [1, 1, 2]);
          (m4, e1) = add_edge m3 ''u'' (EdgeId 0) ''lin_activ'' True (Some ''intern'') (Some [3]);
          (m5, e2) = add_edge m4 ''u'' (EdgeId 0) ''lin_activ'' True (Some ''mult'') (Some [5])
      in m5)"

definition sim_mod :: simulation where
  "sim_mod =
     (let (s1, cid) = add_cell Simulation_init (Cell_init (Some [0]));
          (s2, mid) = add_internal_model s1 im_mod;
          (s3, r3) = set_internal_model s2 [cid] mid;
          (s4, r4) = set_initial_conditions s3 [cid] [(''a'', 1), (''u'', 2)]
      in set_cell_bounds s4)"

definition sim_mod_ext :: simulation where
  "sim_mod_ext = sim_mod\<lparr>interactions := [mod_on_edge], int_counter := 1\<rparr>"

definition y_mod :: "float matrix list" where
  "y_mod = [\<lparr>nrows = 1, ncols = 2, dat = [Fin 1, Fin 2]\<rparr>]"



text \<open>
  The shape of the flattened state: the number of cells and the number of species of
  every group, and the offset at which the block of a group starts.
\<close>

definition state_dims :: "simulation \<Rightarrow> (nat \<times> nat) list" where
  "state_dims sim = zip (map length (IM_cells sim)) (map num_nodes (IMs sim))"

definition state_offset :: "simulation \<Rightarrow> nat \<Rightarrow> nat" where
  "state_offset sim i = sum_list (map (\<lambda>(a, b). a * b) (take i (state_dims sim)))"

definition state_size :: "simulation \<Rightarrow> nat" where
  "state_size sim = sum_list (map (\<lambda>(a, b). a * b) (state_dims sim))"

definition same_dims :: "'a matrix \<Rightarrow> 'a matrix \<Rightarrow> bool" where
  "same_dims m m' = (nrows m' = nrows m \<and> ncols m' = ncols m \<and> length (dat m') = length (dat m))"

definition reshaped_state :: "simulation \<Rightarrow> float list \<Rightarrow> float matrix list" where
  "reshaped_state sim y =
     map (\<lambda>i. \<lparr>nrows = length (IM_cells sim ! i), ncols = num_nodes (IMs sim ! i),
               dat = slice (state_offset sim i) (state_offset sim (i + 1)) y\<rparr>)
         [0..<length (IMs sim)]"

text \<open>
  \<open>partitions bs sizes\<close>: the ranges \<open>bs\<close> are contiguous, start at 0 and have the
  widths \<open>sizes\<close>, so they are disjoint and cover the indices below the sum of the sizes.
  \<open>laid_out sim v f\<close>: the flat vector \<open>v\<close> holds the value \<open>f i r j\<close> of the species \<open>j\<close>
  of the cell number \<open>r\<close> of the group \<open>i\<close> group-major, then cell-major, then by species.
  \<open>ICs_fit\<close>: every cell id of every group is a cell whose initial condition has one
  entry per species of the group's model.
\<close>

definition partitions :: "(nat \<times> nat) list \<Rightarrow> nat list \<Rightarrow> bool" where
  "partitions bs sizes =
     (length bs = length sizes
      \<and> list_all (\<lambda>i. fst (bs ! i) = sum_list (take i sizes) \<and> snd (bs ! i) = fst (bs ! i) + sizes ! i)
           [0..<length bs])"

definition laid_out :: "simulation \<Rightarrow> float list \<Rightarrow> (nat \<Rightarrow> nat \<Rightarrow> nat \<Rightarrow> float) \<Rightarrow> bool" where
  "laid_out sim v f =
     (length v = state_size sim
      \<and> list_all (\<lambda>i. list_all (\<lambda>r. list_all (\<lambda>j.
             v ! (state_offset sim i + r * num_nodes (IMs sim ! i) + j) = f i r j)
           [0..<num_nodes (IMs sim ! i)]) [0..<length (IM_cells sim ! i)]) [0..<length (IMs sim)])"

definition ICs_fit :: "simulation \<Rightarrow> bool" where
  "ICs_fit sim =
     list_all (\<lambda>i. list_all (\<lambda>cid. cid < length (cells sim)
                      \<and> (case IC (cells sim ! cid) of None \<Rightarrow> False
                          | Some v \<Rightarrow> length v = num_nodes (IMs sim ! i)))
                 (IM_cells sim ! i))
       [0..<length (IMs sim)]"

text \<open>
  Two groups: the cells 1 and 0, in this order, run \<open>im_plain\<close> (species \<open>a\<close>), and the
  cell 2 runs \<open>im_mod\<close> (species \<open>a\<close> and \<open>u\<close>); the three cells sit at the positions 0,
  1 and 2 and a diffusion of \<open>a\<close> of rate 1 connects every cell to the two others.
\<close>

definition sim_groups :: simulation where
  "sim_groups =
     (let (s1, c0) = add_cell Simulation_init (Cell_init (Some [0]));
          (s2, c1) = add_cell s1 (Cell_init (Some [1]));
          (s3, c2) = add_cell s2 (Cell_init (Some [2]));
          (s4, m0) = add_internal_model s3 im_plain;
          (s5, m1) = add_internal_model s4 im_mod;
          (s6, r6) = set_internal_model s5 [c1, c0] m0;
          (s7, r7) = set_internal_model s6 [c2] m1;
          (s8, r8) = set_initial_conditions s7 [c0] [(''a'', 1)];
          (s9, r9) = set_initial_conditions s8 [c1] [(''a'', 0)];
          (s10, r10) = set_initial_conditions s9 [c2] [(''a'', 1), (''u'', 2)];
          (s11, r11) = add_interaction s10 ''a'' (NodeName ''a'') ''diffusion''
                         [[False, True, True], [True, False, True], [True, True, False]]
                         None False None (Some [1])
      in set_cell_bounds s11)"

section \<open>Properties\<close>

lemma ebind_Inr [simp]: "ebind (Inr x) f = f x"
  by (simp add: ebind_def)

lemma ebind_Inl [simp]: "ebind (Inl e) f = Inl e"
  by (simp add: ebind_def)

subsection \<open>Edge identifiers\<close>

lemma Edge_init_id: "Edge_init src tgt mo eid = Inr e \<Longrightarrow> edge_id e = eid"
  by (auto simp: Edge_init_def split: option.splits)

lemma set_node_degradation_fresh:
  "ids_fresh im \<Longrightarrow> ids_fresh (fst (set_node_degradation im nm deg params))"
  unfolding set_node_degradation_def
  by (auto simp: Let_def ids_fresh_def list_all_iff dest!: Edge_init_id
      split: sum.splits option.splits)

lemma add_node_fresh: "ids_fresh im \<Longrightarrow> ids_fresh (fst (add_node im nm deg params))"
proof -
  assume a: "ids_fresh im"
  let ?im2 = "im\<lparr>nodes := nodes im @ [Node_init nm],
    node_names := AList.update nm (length (nodes im @ [Node_init nm]) - 1) (node_names im)\<rparr>"
  have "ids_fresh ?im2" using a by (simp add: ids_fresh_def)
  then have "ids_fresh (fst (set_node_degradation ?im2 nm deg params))"
    by (rule set_node_degradation_fresh)
  then show ?thesis
    by (auto simp: add_node_def Let_def split: prod.splits sum.splits)
qed

lemma add_edge_fresh:
  "ids_fresh im \<Longrightarrow> ids_fresh (fst (add_edge im src tgt ty im_flag mt params))"
  unfolding add_edge_def
  by (auto simp: Let_def ids_fresh_def list_all_iff ebind_def dest!: Edge_init_id
      split: sum.splits option.splits)

lemma built_ids_fresh: "built im \<Longrightarrow> ids_fresh im"
proof (induction rule: built.induct)
  case built_init
  show ?case by (simp add: ids_fresh_def InternalModel_init_def)
qed (auto intro: add_node_fresh set_node_degradation_fresh add_edge_fresh)

lemmas build_defs =
  add_edge_def add_node_def set_node_degradation_def Let_def InternalModel_init_def
  get_node_id_def get_node_def get_edge_def nth_err_def ebind_def get_edge_model_def
  ConstantProduction_init_def LinearActivation_init_def HillActivation_init_def
  HillInactivation_init_def LinearDegradation_init_def ParabolicDegradation_init_def
  init_params_def set_params_def new_model_def set_C_def set_A_def set_n_def set_D_def
  Edge_init_def Node_init_def set_degradation_def

lemma im_a_built: "built im_a"
  unfolding im_a_def by (intro built.intros)

lemma im_b_built: "built im_b"
  unfolding im_b_def by (intro built.intros)

lemma im_a_edge_ids: "map edge_id (edges im_a) = [0, 1]"
  by (simp add: im_a_def build_defs)

lemma im_b_edge_ids: "map edge_id (edges im_b) = [0]"
  by (simp add: im_b_def build_defs)

text \<open>
  C8, as stated: any two distinct edges of the internal models registered with one
  simulation have distinct edge ids. It fails: every internal model counts its edges
  from 0, so the first edge of \<open>im_a\<close> and the first edge of \<open>im_b\<close> both have id 0.
\<close>

theorem C8_edge_ids_collide_across_models:
  "built im_a \<and> built im_b \<and> IMs sim_two_models = [im_a, im_b]
   \<and> \<not> distinct (all_edge_ids sim_two_models)"
  by (simp add: im_a_built im_b_built sim_two_models_def add_internal_model_def
      Simulation_init_def Let_def all_edge_ids_def im_a_edge_ids im_b_edge_ids)

text \<open>
  C8, amended: within one internal model built through its interface the edge ids are
  pairwise distinct, whatever the storage position of an edge: each id is the value that
  the model's own counter had when the edge was created, and so is below the counter.
\<close>

theorem C8_edge_ids_unique_within_model:
  "built im \<Longrightarrow>
     distinct (map edge_id (edges im)) \<and> list_all (\<lambda>e. edge_id e < edge_counter im) (edges im)"
  using built_ids_fresh [of im] by (simp add: ids_fresh_def)

theorem C8_edge_ids_unique_within_model_witness:
  "built im_a \<and> edges im_a \<noteq> []
   \<and> distinct (map edge_id (edges im_a))
   \<and> list_all (\<lambda>e. edge_id e < edge_counter im_a) (edges im_a)"
proof -
  have ne: "edges im_a \<noteq> []" using im_a_edge_ids by auto
  show ?thesis
    using C8_edge_ids_unique_within_model [OF im_a_built] im_a_built ne by simp
qed

subsection \<open>The readiness check\<close>

lemma foldl_and: "foldl (\<and>) b bs = (b \<and> list_all (\<lambda>x. x) bs)"
  by (induction bs arbitrary: b) auto

lemma reduce_and_eq:
  "reduce_and bs = (if bs = [] then Inl TypeError else Inr (list_all (\<lambda>x. x) bs))"
  by (cases bs) (auto simp: reduce_and_def foldl_and)

lemma all_params_set_iff:
  "all_params_set im = list_all (\<lambda>e. params_set (model e)) (edges im)"
  by (cases "edges im") (auto simp: all_params_set_def Let_def foldl_and list_all_iff)

lemma simulation_ready_eq:
  "simulation_ready sim =
     (if cells sim = [] then Inl TypeError
      else if \<not> list_all (\<lambda>c. IM c \<noteq> None) (cells sim) then Inr False
      else if \<not> list_all (\<lambda>c. IC c \<noteq> None) (cells sim) then Inr False
      else if IMs sim = [] then Inl TypeError
      else Inr (list_all all_params_set (IMs sim)))"
  by (auto simp: simulation_ready_def reduce_and_eq ebind_def list_all_iff)

lemma simulation_ready_True_iff:
  "(simulation_ready sim = Inr True) =
     (cells sim \<noteq> [] \<and> IMs sim \<noteq> []
      \<and> list_all (\<lambda>c. IM c \<noteq> None) (cells sim)
      \<and> list_all (\<lambda>c. IC c \<noteq> None) (cells sim)
      \<and> list_all (\<lambda>im. list_all (\<lambda>e. params_set (model e)) (edges im)) (IMs sim))"
  by (auto simp: simulation_ready_eq all_params_set_iff list_all_iff)

lemma simulate_not_ready:
  "simulation_ready sim \<noteq> Inr True \<Longrightarrow>
     simulate depth sim odeint t = (sim, Inr None) \<or> simulate depth sim odeint t = (sim, Inl TypeError)"
  by (auto simp: simulate_def simulation_ready_eq split: sum.splits if_splits)

lemma simulate_ready:
  "simulation_ready sim = Inr True \<Longrightarrow>
     simulate depth sim odeint t =
       (set_cell_bounds sim,
        ebind (initial_state (set_cell_bounds sim)) (\<lambda>y0.
        ebind (odeint (deriv depth (set_cell_bounds sim)) y0 t) (\<lambda>sol.
        ebind (unpack_groups (set_cell_bounds sim) sol 0 [0..<length (IMs (set_cell_bounds sim))]
                 (map (\<lambda>c. None) (cells (set_cell_bounds sim)))) (\<lambda>cdata.
        Inr (Some cdata)))))"
  by (simp add: simulate_def Let_def)

lemmas sim_defs =
  add_cell_def Cell_init_def set_cell_id_def add_internal_model_def set_internal_model_def
  set_initial_conditions_def set_IM_def set_IC_def Simulation_init_def
  add_interaction_def get_int_model_def Diffusion_init_def set_dist_pre_def Interaction_init_def
  sqeuclidean_def ma_array_def ma_divide_def ma_filled_def init_params_def new_model_def ebind_def

lemma im_a_nodes: "map name (nodes im_a) = [''a'']"
  by (simp add: im_a_def build_defs)

lemma im_a_num_nodes: "num_nodes im_a = 1"
  using arg_cong [OF im_a_nodes, of length] by (simp add: num_nodes_def)

lemma im_a_params: "all_params_set im_a"
  by (simp add: im_a_def build_defs all_params_set_def)

lemma cell_a_eval:
  "cell_a = \<lparr>position = Some [0], IM = Some im_a, IC = None, num_species = 1, cell_id = Some 0\<rparr>"
  by (simp add: cell_a_def sim_defs im_a_num_nodes)

lemma sim_no_IC_eval:
  "sim_no_IC = \<lparr>cells = [cell_a], IMs = [im_a], IM_cells = [[0]], IM_bounds = [],
                interactions = [], int_counter = 0\<rparr>"
  by (simp add: sim_no_IC_def cell_a_eval sim_defs im_a_num_nodes)

lemma sim_one_eval:
  "sim_one = \<lparr>cells = [cell_a\<lparr>IC := Some [Fin 1]\<rparr>],
              IMs = [im_a], IM_cells = [[0]], IM_bounds = [], interactions = [], int_counter = 0\<rparr>"
proof -
  obtain nd where nd: "nodes im_a = [nd]" "name nd = ''a''"
    using im_a_nodes by (cases "nodes im_a") auto
  show ?thesis
    by (simp add: sim_one_def sim_no_IC_eval cell_a_eval sim_defs im_a_num_nodes nd)
qed

lemma sim_unset_eval:
  "sim_unset = sim_one\<lparr>interactions :=
      [\<lparr>from_node = ''a'', to_node = Some (NodeName ''a''), to_edge = None,
          is_mod = False, mod_type = None,
          model =
            \<lparr>kind = Diffusion, num_params = 1, params_set = False,
               is_mod = False, mod_type = None, prm_C = None, prm_A = None,
               prm_n = None, prm_D = None, dist_pre = [[0]],
               cmask = [[False]]\<rparr>,
          external = True, to_IM = None, int_id = 0\<rparr>], int_counter := 1\<rparr>"
  by (simp add: sim_unset_def sim_one_eval cell_a_eval sim_defs)

lemma sim_one_ready: "simulation_ready sim_one = Inr True"
  by (simp add: simulation_ready_eq sim_one_eval cell_a_eval im_a_params)

lemma sim_unset_ready: "simulation_ready sim_unset = Inr True"
  by (simp add: simulation_ready_eq sim_unset_eval sim_one_eval cell_a_eval im_a_params)

lemma sim_no_IC_ready: "simulation_ready sim_no_IC = Inr False"
  by (simp add: simulation_ready_eq sim_no_IC_eval cell_a_eval)

text \<open>
  C2, as stated: \<open>simulate\<close> reaches the integrator only if, besides the cells and the
  internal models, every interaction's term has its parameters set. It fails:
  \<open>sim_unset\<close> has a diffusion without parameters, its readiness check succeeds, and
  \<open>simulate\<close> hands the problem to the integrator and returns its trajectory.
\<close>

theorem C2_unset_interaction_is_integrated:
  "list_ex (\<lambda>i. \<not> params_set (model i)) (interactions sim_unset)
   \<and> simulation_ready sim_unset = Inr True
   \<and> snd (simulate 10 sim_unset hold [0, 1]) = Inr (Some [Some [[Fin 1], [Fin 1]]])"
proof -
  have "snd (simulate 10 sim_unset hold [0, 1]) = Inr (Some [Some [[Fin 1], [Fin 1]]])"
    by (simp add: simulate_def sim_unset_ready)
      (simp add: sim_unset_eval sim_one_eval cell_a_eval set_cell_bounds_def initial_state_def
        initial_group_def hold_def ebind_def nth_err_def assign_row_def reduce_append_def
        slice_def im_a_num_nodes)
  then show ?thesis
    by (simp add: sim_unset_ready) (simp add: sim_unset_eval)
qed

text \<open>
  C2, amended: the readiness check succeeds exactly when there is a cell and an internal
  model, every cell has an assigned model and an initial condition, and every edge of
  every internal model has its parameters set; the interactions are not examined. When
  the check does not succeed, \<open>simulate\<close> leaves the simulation as it is and returns
  \<open>None\<close>, or raises the TypeError of a \<open>reduce\<close> over an empty list, whatever the
  integrator is; when it succeeds, the group bounds are set and the integrator is given
  the derivative function and the flattened initial conditions.
\<close>

theorem C2_simulate_gate:
  "(simulation_ready sim = Inr True) =
     (cells sim \<noteq> [] \<and> IMs sim \<noteq> []
      \<and> list_all (\<lambda>c. IM c \<noteq> None) (cells sim)
      \<and> list_all (\<lambda>c. IC c \<noteq> None) (cells sim)
      \<and> list_all (\<lambda>im. list_all (\<lambda>e. params_set (model e)) (edges im)) (IMs sim))
   \<and> (simulation_ready sim \<noteq> Inr True \<longrightarrow>
        simulate depth sim odeint t = (sim, Inr None)
        \<or> simulate depth sim odeint t = (sim, Inl TypeError))
   \<and> (simulation_ready sim = Inr True \<longrightarrow>
        simulate depth sim odeint t =
          (set_cell_bounds sim,
           ebind (initial_state (set_cell_bounds sim)) (\<lambda>y0.
           ebind (odeint (deriv depth (set_cell_bounds sim)) y0 t) (\<lambda>sol.
           ebind (unpack_groups (set_cell_bounds sim) sol 0
                    [0..<length (IMs (set_cell_bounds sim))]
                    (map (\<lambda>c. None) (cells (set_cell_bounds sim)))) (\<lambda>cdata.
           Inr (Some cdata))))))"
  using simulation_ready_True_iff [of sim] simulate_not_ready [of sim depth odeint t]
    simulate_ready [of sim depth odeint t]
  by blast

theorem C2_simulate_gate_witness:
  "simulation_ready sim_no_IC \<noteq> Inr True
   \<and> \<not> list_all (\<lambda>c. IC c \<noteq> None) (cells sim_no_IC)
   \<and> simulate 10 sim_no_IC hold [0, 1] = (sim_no_IC, Inr None)
   \<and> simulation_ready sim_one = Inr True
   \<and> snd (simulate 10 sim_one hold [0, 1]) = Inr (Some [Some [[Fin 1], [Fin 1]]])"
proof -
  have nr: "simulation_ready sim_no_IC \<noteq> Inr True" by (simp add: sim_no_IC_ready)
  have a: "\<not> list_all (\<lambda>c. IC c \<noteq> None) (cells sim_no_IC)"
    by (simp add: sim_no_IC_eval cell_a_eval)
  have b: "simulate 10 sim_no_IC hold [0, 1] = (sim_no_IC, Inr None)
           \<or> simulate 10 sim_no_IC hold [0, 1] = (sim_no_IC, Inl TypeError)"
    using C2_simulate_gate [of sim_no_IC 10 hold "[0, 1]"] nr by blast
  have "snd (simulate 10 sim_no_IC hold [0, 1]) \<noteq> Inl TypeError"
    by (simp add: simulate_def sim_no_IC_ready)
  with b have c: "simulate 10 sim_no_IC hold [0, 1] = (sim_no_IC, Inr None)" by auto
  have "snd (simulate 10 sim_one hold [0, 1]) =
          ebind (initial_state (set_cell_bounds sim_one)) (\<lambda>y0.
          ebind (hold (deriv 10 (set_cell_bounds sim_one)) y0 [0, 1]) (\<lambda>sol.
          ebind (unpack_groups (set_cell_bounds sim_one) sol 0
                   [0..<length (IMs (set_cell_bounds sim_one))]
                   (map (\<lambda>c. None) (cells (set_cell_bounds sim_one)))) (\<lambda>cdata.
          Inr (Some cdata))))"
    using C2_simulate_gate [of sim_one 10 hold "[0, 1]"] sim_one_ready by simp
  then have d: "snd (simulate 10 sim_one hold [0, 1]) = Inr (Some [Some [[Fin 1], [Fin 1]]])"
    by (simp add: sim_one_eval cell_a_eval set_cell_bounds_def initial_state_def
        initial_group_def hold_def ebind_def nth_err_def assign_row_def reduce_append_def
        slice_def im_a_num_nodes)
  show ?thesis using nr a c d sim_one_ready by simp
qed

subsection \<open>Initial conditions\<close>

lemma set_IC_loop_missing:
  "list_ex (\<lambda>i. map_of d (name (ns ! i)) = None) idxs \<Longrightarrow> snd (set_IC_loop d ns idxs arr) = Inl KeyError"
  by (induction idxs arbitrary: arr) (auto split: option.splits)

lemma set_IC_loop_present:
  "list_all (\<lambda>i. map_of d (name (ns ! i)) \<noteq> None) idxs \<Longrightarrow>
     set_IC_loop d ns idxs arr =
       (fold (\<lambda>i a. a[i := Fin (the (map_of d (name (ns ! i))))]) idxs arr, Inr ())"
  by (induction idxs arbitrary: arr) (auto split: option.splits)

lemma fold_upd_upt:
  "k \<le> n \<Longrightarrow> length arr = n \<Longrightarrow>
     fold (\<lambda>i a. a[i := f i]) [k..<n] arr = take k arr @ map f [k..<n]"
proof (induction "n - k" arbitrary: k arr)
  case 0
  then show ?case by simp
next
  case (Suc m)
  then have kn: "k < n" by simp
  have step: "fold (\<lambda>i a. a[i := f i]) [Suc k..<n] (arr[k := f k]) = take (Suc k) (arr[k := f k]) @ map f [Suc k..<n]"
    using Suc(1)[of "Suc k" "arr[k := f k]"] Suc(2,3,4) kn by simp
  have "take (Suc k) (arr[k := f k]) = take k arr @ [f k]"
    using kn Suc(4) by (simp add: take_Suc_conv_app_nth)
  with step show ?case using kn by (simp add: upt_conv_Cons)
qed

lemma set_IC_valid:
  assumes "IM c = Some im" "length d = num_nodes im"
    and "set (get_node_names im) \<subseteq> set (map fst d)"
  shows "set_IC c d = (c\<lparr>IC := Some (map (\<lambda>nm. Fin (the (map_of d nm))) (get_node_names im))\<rparr>, Inr ())"
proof -
  let ?n = "length d"
  have len: "length (nodes im) = ?n" using assms(2) by (simp add: num_nodes_def)
  have pres: "list_all (\<lambda>i. map_of d (name (nodes im ! i)) \<noteq> None) [0..<?n]"
  proof -
    { fix i assume "i < ?n"
      then have "name (nodes im ! i) \<in> set (get_node_names im)"
        using len by (auto simp: get_node_names_def)
      then have "name (nodes im ! i) \<in> fst ` set d" using assms(3) by auto
      then have "map_of d (name (nodes im ! i)) \<noteq> None" by (simp add: map_of_eq_None_iff) }
    then show ?thesis by (simp add: list_all_iff)
  qed
  have "fold (\<lambda>i a. a[i := Fin (the (map_of d (name (nodes im ! i))))]) [0..<?n] (replicate ?n (Fin 0))
        = map (\<lambda>i. Fin (the (map_of d (name (nodes im ! i))))) [0..<?n]"
    using fold_upd_upt[of 0 ?n "replicate ?n (Fin 0)"] by simp
  also have "\<dots> = map (\<lambda>nm. Fin (the (map_of d nm))) (get_node_names im)"
    using len by (auto simp: get_node_names_def intro!: nth_equalityI)
  finally show ?thesis
    using assms(1,2) set_IC_loop_present[OF pres] by (simp add: set_IC_def)
qed

lemma set_IC_count:
  "IM c = Some im \<Longrightarrow> length d \<noteq> num_nodes im \<Longrightarrow>
     set_IC c d = (c, Inl (CountMessage (length d) (num_nodes im)))"
  by (simp add: set_IC_def)

lemma set_IC_missing:
  assumes "IM c = Some im" "length d = num_nodes im"
    and "\<not> set (get_node_names im) \<subseteq> set (map fst d)"
  shows "snd (set_IC c d) = Inl KeyError"
proof -
  from assms(3) obtain nm where nm: "nm \<in> set (get_node_names im)" "nm \<notin> fst ` set d" by auto
  then obtain i where i: "i < length (nodes im)" "name (nodes im ! i) = nm"
    by (auto simp: get_node_names_def in_set_conv_nth)
  have "map_of d nm = None" using nm(2) by (simp add: map_of_eq_None_iff)
  then have "list_ex (\<lambda>i. map_of d (name (nodes im ! i)) = None) [0..<length d]"
    using i assms(2) by (auto simp: list_ex_iff num_nodes_def)
  from set_IC_loop_missing[OF this, of "replicate (length d) (Fin 0)"] show ?thesis
    using assms(1,2) by (auto simp: set_IC_def split: prod.splits)
qed

lemma keys_not_names:
  assumes "distinct (map fst d)" "distinct (get_node_names im)" "length d = num_nodes im"
    and "set (map fst d) \<noteq> set (get_node_names im)"
  shows "\<not> set (get_node_names im) \<subseteq> set (map fst d)"
proof
  assume sub: "set (get_node_names im) \<subseteq> set (map fst d)"
  have "card (set (get_node_names im)) = length (get_node_names im)"
    using assms(2) by (rule distinct_card)
  moreover have "card (set (map fst d)) = length (map fst d)"
    using assms(1) by (rule distinct_card)
  ultimately have "card (set (get_node_names im)) = card (set (map fst d))"
    using assms(3) by (simp add: get_node_names_def num_nodes_def)
  with sub have "set (get_node_names im) = set (map fst d)"
    by (intro card_subset_eq) auto
  with assms(4) show False by simp
qed

lemma not_ready_without_IC:
  "c \<in> set (cells sim) \<Longrightarrow> IC c = None \<Longrightarrow> simulation_ready sim \<noteq> Inr True"
  by (auto simp: simulation_ready_True_iff list_all_iff)

lemma set_IC_cell_a_rejected:
  "set_IC (cell_a\<lparr>IC := ic\<rparr>) [(''a'', 5), (''zz'', 7)] = (cell_a\<lparr>IC := ic\<rparr>, Inl (CountMessage 2 1))"
  by (simp add: set_IC_def cell_a_eval im_a_num_nodes)

lemma set_IC_cell_a_missing:
  "set_IC cell_a [(''zz'', 7)] = (cell_a\<lparr>IC := Some [Fin 0]\<rparr>, Inl KeyError)"
proof -
  obtain nd where nd: "nodes im_a = [nd]" "name nd = ''a''"
    using im_a_nodes by (cases "nodes im_a") auto
  show ?thesis by (simp add: set_IC_def cell_a_eval im_a_num_nodes nd)
qed

text \<open>
  C7, as stated: a cell given a mapping whose key set is not the node names of its model
  fails the readiness check. It fails on the code. The cell of \<open>sim_one\<close> holds a valid
  initial condition; the mapping \<open>{a: 5, zz: 7}\<close> has an extra name, \<open>set_IC\<close> prints its
  count message and returns, the cell keeps what it had, and the readiness check still
  succeeds. (The check only looks whether an array is stored: the last two conjuncts
  show it also succeeds after the mapping \<open>{zz: 7}\<close>, of the right size, has raised
  KeyError on the fresh cell of \<open>sim_no_IC\<close>, because the array is stored before the
  names are looked up.)
\<close>

theorem C7_rejected_mapping_still_ready:
  "set (map fst [(''a'', 5::real), (''zz'', 7)]) \<noteq> set (get_node_names im_a)
   \<and> cells sim_one = [cell_a\<lparr>IC := Some [Fin 1]\<rparr>]
   \<and> snd (set_IC (cell_a\<lparr>IC := Some [Fin 1]\<rparr>) [(''a'', 5), (''zz'', 7)]) = Inl (CountMessage 2 1)
   \<and> set_initial_conditions sim_one [0] [(''a'', 5), (''zz'', 7)] = (sim_one, Inr ())
   \<and> simulation_ready sim_one = Inr True
   \<and> set_initial_conditions sim_no_IC [0] [(''zz'', 7)]
       = (sim_no_IC\<lparr>cells := [cell_a\<lparr>IC := Some [Fin 0]\<rparr>]\<rparr>, Inl KeyError)
   \<and> simulation_ready (sim_no_IC\<lparr>cells := [cell_a\<lparr>IC := Some [Fin 0]\<rparr>]\<rparr>) = Inr True"
proof -
  have a: "set_initial_conditions sim_one [0] [(''a'', 5), (''zz'', 7)] = (sim_one, Inr ())"
    by (simp add: set_initial_conditions_def sim_one_eval set_IC_cell_a_rejected)
  have b: "set_initial_conditions sim_no_IC [0] [(''zz'', 7)]
       = (sim_no_IC\<lparr>cells := [cell_a\<lparr>IC := Some [Fin 0]\<rparr>]\<rparr>, Inl KeyError)"
    by (simp add: set_initial_conditions_def sim_no_IC_eval set_IC_cell_a_missing)
  have c: "simulation_ready (sim_no_IC\<lparr>cells := [cell_a\<lparr>IC := Some [Fin 0]\<rparr>]\<rparr>) = Inr True"
    by (simp add: simulation_ready_eq sim_no_IC_eval cell_a_eval im_a_params)
  have d: "set (map fst [(''a'', 5::real), (''zz'', 7)]) \<noteq> set (get_node_names im_a)"
    by (simp add: get_node_names_def im_a_nodes)
  show ?thesis
    using a b c d sim_one_ready by (simp add: set_IC_cell_a_rejected) (simp add: sim_one_eval)
qed

text \<open>
  C7, amended: for a cell with an assigned model whose node names are distinct, and a
  mapping (a dict, so with distinct keys): if the key set is not the set of node names,
  \<open>set_IC\<close> reports an error (the count message, or KeyError for a missing name); if the
  number of keys differs from the number of nodes, the cell is left exactly as it was, so
  that a cell that had no initial condition still has none and any simulation holding it
  fails the readiness check; and if the key set is the set of node names, the stored
  vector lists the values in the model's node order. What is stored when KeyError is
  raised is left open.
\<close>

theorem C7_set_IC:
  assumes "IM c = Some im" and "distinct (map fst d)" and "distinct (get_node_names im)"
  shows "(set (map fst d) \<noteq> set (get_node_names im) \<longrightarrow> (\<exists>e. snd (set_IC c d) = Inl e))
    \<and> (length d \<noteq> num_nodes im \<longrightarrow> fst (set_IC c d) = c)
    \<and> (length d \<noteq> num_nodes im \<and> IC c = None \<and> fst (set_IC c d) \<in> set (cells sim)
         \<longrightarrow> simulation_ready sim \<noteq> Inr True)
    \<and> (set (map fst d) = set (get_node_names im) \<longrightarrow>
         set_IC c d = (c\<lparr>IC := Some (map (\<lambda>nm. Fin (the (map_of d nm))) (get_node_names im))\<rparr>, Inr ()))"
proof (intro conjI impI)
  assume ne: "set (map fst d) \<noteq> set (get_node_names im)"
  show "\<exists>e. snd (set_IC c d) = Inl e"
  proof (cases "length d = num_nodes im")
    case True
    from keys_not_names[OF assms(2,3) True ne] set_IC_missing[OF assms(1) True]
    show ?thesis by blast
  next
    case False
    then show ?thesis using set_IC_count[OF assms(1)] by simp
  qed
next
  assume "length d \<noteq> num_nodes im"
  then show "fst (set_IC c d) = c" using set_IC_count[OF assms(1)] by simp
next
  assume a: "length d \<noteq> num_nodes im \<and> IC c = None \<and> fst (set_IC c d) \<in> set (cells sim)"
  then have "fst (set_IC c d) = c" using set_IC_count[OF assms(1)] by simp
  with a show "simulation_ready sim \<noteq> Inr True" using not_ready_without_IC[of c sim] by simp
next
  assume eq: "set (map fst d) = set (get_node_names im)"
  have "length d = num_nodes im"
  proof -
    have "card (set (map fst d)) = length d" using distinct_card[OF assms(2)] by simp
    moreover have "card (set (get_node_names im)) = num_nodes im"
      using distinct_card[OF assms(3)] by (simp add: get_node_names_def num_nodes_def)
    ultimately show ?thesis using eq by simp
  qed
  then show "set_IC c d = (c\<lparr>IC := Some (map (\<lambda>nm. Fin (the (map_of d nm))) (get_node_names im))\<rparr>, Inr ())"
    using set_IC_valid[OF assms(1)] eq by simp
qed

theorem C7_set_IC_witness:
  "IM cell_a = Some im_a \<and> IC cell_a = None \<and> cells sim_no_IC = [cell_a]
   \<and> snd (set_IC cell_a [(''a'', 5), (''zz'', 7)]) = Inl (CountMessage 2 1)
   \<and> fst (set_IC cell_a [(''a'', 5), (''zz'', 7)]) = cell_a
   \<and> simulation_ready sim_no_IC \<noteq> Inr True
   \<and> set_IC cell_a [(''a'', 5)] = (cell_a\<lparr>IC := Some [Fin 5]\<rparr>, Inr ())"
proof -
  have im: "IM cell_a = Some im_a" and ic: "IC cell_a = None" by (simp_all add: cell_a_eval)
  have dn: "distinct (get_node_names im_a)" by (simp add: get_node_names_def im_a_nodes)
  have d1: "distinct (map fst [(''a'', 5::real), (''zz'', 7)])" by simp
  have d2: "distinct (map fst [(''a'', 5::real)])" by simp
  have rej: "set_IC cell_a [(''a'', 5), (''zz'', 7)] = (cell_a, Inl (CountMessage 2 1))"
    using set_IC_cell_a_rejected [of None] ic by (simp add: cell_a_eval)
  have cs: "cells sim_no_IC = [cell_a]" by (simp add: sim_no_IC_eval)
  have "length [(''a'', 5::real), (''zz'', 7)] \<noteq> num_nodes im_a" by (simp add: im_a_num_nodes)
  then have nr: "simulation_ready sim_no_IC \<noteq> Inr True"
    using C7_set_IC [OF im d1 dn, of sim_no_IC] ic rej cs by simp
  have "set (map fst [(''a'', 5::real)]) = set (get_node_names im_a)"
    by (simp add: get_node_names_def im_a_nodes)
  then have ok: "set_IC cell_a [(''a'', 5)] = (cell_a\<lparr>IC := Some [Fin 5]\<rparr>, Inr ())"
    using C7_set_IC [OF im d2 dn, of sim_no_IC] by (simp add: get_node_names_def im_a_nodes)
  show ?thesis using im ic cs rej nr ok by simp
qed

subsection \<open>Modifiers in the resolver\<close>

lemma im_plain_eval:
  "im_plain = \<lparr>nodes = [Node_init ''a''], edges = [], node_names = [(''a'', 0)], edge_counter = 0\<rparr>"
  by (simp add: im_plain_def build_defs)

lemma sim_pair_cells_eval:
  "sim_pair_cells =
     \<lparr>cells = [\<lparr>position = Some [0], IM = Some im_plain, IC = Some [Fin 1], num_species = 1,
                  cell_id = Some 0\<rparr>,
               \<lparr>position = Some [1], IM = Some im_plain, IC = Some [Fin 0], num_species = 1,
                  cell_id = Some 1\<rparr>],
      IMs = [im_plain], IM_cells = [[0, 1]], IM_bounds = [], interactions = [], int_counter = 0\<rparr>"
proof -
  have n: "num_nodes im_plain = 1" "nodes im_plain = [Node_init ''a'']"
    by (simp_all add: im_plain_eval num_nodes_def)
  show ?thesis
    by (simp add: sim_pair_cells_def sim_defs n Node_init_def)
qed

lemma diff_pair_eval:
  "diff_pair = \<lparr>from_node = ''a'', to_node = Some (NodeName ''a''), to_edge = None,
    is_mod = False, mod_type = None,
    model =
      \<lparr>kind = Diffusion, num_params = 1, params_set = True, is_mod = False,
         mod_type = None, prm_C = Some 1, prm_A = None, prm_n = None,
         prm_D = None, dist_pre = [[0, 1], [1, 0]],
         cmask = [[True, False], [False, True]]\<rparr>,
    external = True, to_IM = None, int_id = 0\<rparr>"
  by (simp add: diff_pair_def sim_pair_cells_eval sim_defs set_params_def set_C_def)

lemma sim_pair_eval:
  "sim_pair = sim_pair_cells\<lparr>IM_bounds := [(0, 2)], interactions := [diff_pair], int_counter := 1\<rparr>"
  by (simp add: sim_pair_def diff_pair_eval sim_pair_cells_eval sim_defs set_params_def set_C_def
      set_cell_bounds_def)

lemma mod_intern_eval:
  "mod_intern = \<lparr>from_node = ''a'', to_node = None, to_edge = Some (EdgeId 0),
          is_mod = True, mod_type = Some ''intern'',
          model =
            \<lparr>kind = LinearActivation, num_params = 1, params_set = True,
               is_mod = True, mod_type = Some ''intern'', prm_C = Some 2, prm_A = None,
               prm_n = None, prm_D = None, dist_pre = [],
               cmask = []\<rparr>,
          external = True, to_IM = None, int_id = 1\<rparr>"
  by (simp add: mod_intern_def sim_defs LinearActivation_init_def set_params_def set_C_def)

lemma mod_mult_eval:
  "mod_mult = \<lparr>from_node = ''a'', to_node = None, to_edge = Some (EdgeId 0),
          is_mod = True, mod_type = Some ''mult'',
          model =
            \<lparr>kind = LinearActivation, num_params = 1, params_set = True,
               is_mod = True, mod_type = Some ''mult'', prm_C = Some 2, prm_A = None,
               prm_n = None, prm_D = None, dist_pre = [],
               cmask = []\<rparr>,
          external = True, to_IM = None, int_id = 1\<rparr>"
  by (simp add: mod_mult_def sim_defs LinearActivation_init_def set_params_def set_C_def)

lemma mod_on_edge_eval:
  "mod_on_edge = \<lparr>from_node = ''u'', to_node = None, to_edge = Some (EdgeId 0),
          is_mod = True, mod_type = Some ''intern'',
          model =
            \<lparr>kind = LinearActivation, num_params = 1, params_set = True,
               is_mod = True, mod_type = Some ''intern'', prm_C = Some 2, prm_A = None,
               prm_n = None, prm_D = None, dist_pre = [],
               cmask = []\<rparr>,
          external = True, to_IM = Some 0, int_id = 0\<rparr>"
  by (simp add: mod_on_edge_def sim_defs LinearActivation_init_def set_params_def set_C_def)

lemma get_modifiers_comp_raises:
  "list_ex (\<lambda>i. to_edge i = Some (EdgeId eid)) ints \<Longrightarrow> get_modifiers_comp ints eid g = Inl AttributeError"
  by (induction ints) (auto simp: IM_id_attr_def ebind_def)

lemma get_modifiers_comp_empty:
  "\<not> list_ex (\<lambda>i. to_edge i = Some (EdgeId eid)) ints \<Longrightarrow> get_modifiers_comp ints eid g = Inr []"
  by (induction ints) (auto simp: IM_id_attr_def ebind_def)

lemma get_modifiers_eq:
  "get_modifiers sim eid g =
     (if list_ex (\<lambda>i. to_edge i = Some (EdgeId eid)) (interactions sim) then Inl AttributeError else Inr [])"
  by (simp add: get_modifiers_def get_modifiers_comp_raises get_modifiers_comp_empty)

lemmas resolve_defs =
  get_modifiers_eq nth_err_def ebind_def column_def entry_def get_node_id_def apply_external_def
  Diffusion_apply_def slice_def same_shape_def nsum_def Let_def inplace_def apply_term_def
  IM_get_modifiers_def upt_rec

lemma resolve_pair:
  "resolve_contribution (Suc d) sim_pair (InteractionC diff_pair) y_pair 0 = Inr [Fin (- 1), Fin 1]"
  by (simp add: sim_pair_eval sim_pair_cells_eval im_plain_eval y_pair_def)
     (simp add: diff_pair_eval resolve_defs)


lemma resolve_pair_mult:
  "resolve_contribution (Suc d) sim_pair_mult (InteractionC diff_pair) y_pair 0 = Inl AttributeError"
  by (simp add: sim_pair_mult_def sim_pair_eval sim_pair_cells_eval get_modifiers_eq ebind_def)
     (simp add: diff_pair_eval mod_mult_eval)

lemma im_mod_eval: "im_mod = \<lparr>nodes = [Node_init ''a'', Node_init ''u''],
    edges =
      [\<lparr>from_node = ''a'', to_node = Some (NodeName ''a''), to_edge = None,
          is_mod = False, mod_type = None,
          model =
            \<lparr>kind = HillActivation, num_params = 3, params_set = True,
               is_mod = False, mod_type = None, prm_C = Some 1,
               prm_A = Some 1, prm_n = Some 2, prm_D = None, dist_pre = [],
               cmask = []\<rparr>,
          external = False, edge_id = 0\<rparr>,
       \<lparr>from_node = ''u'', to_node = None, to_edge = Some (EdgeId 0),
          is_mod = True, mod_type = Some ''intern'',
          model =
            \<lparr>kind = LinearActivation, num_params = 1, params_set = True,
               is_mod = True, mod_type = Some ''intern'', prm_C = Some 3,
               prm_A = None, prm_n = None, prm_D = None, dist_pre = [],
               cmask = []\<rparr>,
          external = False, edge_id = 1\<rparr>,
       \<lparr>from_node = ''u'', to_node = None, to_edge = Some (EdgeId 0),
          is_mod = True, mod_type = Some ''mult'',
          model =
            \<lparr>kind = LinearActivation, num_params = 1, params_set = True,
               is_mod = True, mod_type = Some ''mult'', prm_C = Some 5,
               prm_A = None, prm_n = None, prm_D = None, dist_pre = [],
               cmask = []\<rparr>,
          external = False, edge_id = 2\<rparr>],
    node_names = [(''a'', 0), (''u'', 1)], edge_counter = 3\<rparr>"
  by (simp add: im_mod_def build_defs)

lemma sim_mod_eval:
  "sim_mod = \<lparr>cells = [\<lparr>position = Some [0], IM = Some im_mod, IC = Some [Fin 1, Fin 2],
                         num_species = 2, cell_id = Some 0\<rparr>],
      IMs = [im_mod], IM_cells = [[0]], IM_bounds = [(0, 1)], interactions = [], int_counter = 0\<rparr>"
proof -
  have n: "num_nodes im_mod = 2" "nodes im_mod = [Node_init ''a'', Node_init ''u'']"
    by (simp_all add: im_mod_eval num_nodes_def)
  show ?thesis
    by (simp add: sim_mod_def sim_defs n Node_init_def set_cell_bounds_def upt_rec)
qed

lemma hill_eval: "hill 1 1 2 (Fin 6) = Fin (36 / 37)"
  by (simp add: hill_def is_integral_def)

lemma resolve_mod:
  "resolve_contribution 3 sim_mod (EdgeC (edges im_mod ! 0)) y_mod 0 = Inr [Fin (360 / 37)]"
  by (simp add: numeral_3_eq_3 sim_mod_eval y_mod_def)
     (simp add: im_mod_eval resolve_defs hill_eval)

lemma resolve_pair_intern:
  "resolve_contribution (Suc d) sim_pair_intern (InteractionC diff_pair) y_pair 0 = Inl AttributeError"
  by (simp add: sim_pair_intern_def sim_pair_eval sim_pair_cells_eval get_modifiers_eq ebind_def)
     (simp add: diff_pair_eval mod_intern_eval)

text \<open>
  The finder of external modifiers never returns one: it raises as soon as an interaction
  targets the id it was asked about.
\<close>

lemma get_modifiers_never_finds: "get_modifiers sim eid g = Inr mods \<Longrightarrow> mods = []"
  by (auto simp: get_modifiers_eq split: if_splits)

text \<open>
  Without an external modifier on its id, an internal edge is resolved as the claim
  says: the modifier edges of its own model are found, the internal-type ones are
  multiplied into the copied source column, the term is applied, and the multiplicative
  ones are multiplied into the result.
\<close>

lemma resolve_internal_edge:
  assumes "\<not> external e" and "IM_id < length (IMs sim)"
    and "\<not> list_ex (\<lambda>m. to_edge m = Some (EdgeId (edge_id e))) (interactions sim)"
  shows "resolve_contribution (Suc depth) sim (EdgeC e) ycurrent IM_id =
           ebind (get_node_id (IMs sim ! IM_id) (from_node e)) (\<lambda>from_id.
           ebind (nth_err ycurrent IM_id) (\<lambda>yc.
           ebind (column yc from_id) (\<lambda>xcontrib.
           ebind (apply_mods (\<lambda>m. resolve_contribution depth sim m ycurrent IM_id) ''intern''
                    (map EdgeC (IM_get_modifiers (IMs sim ! IM_id) (edge_id e))) xcontrib)
             (\<lambda>xcontrib'.
           ebind (apply_term (model e) xcontrib') (\<lambda>ycontrib.
           apply_mods (\<lambda>m. resolve_contribution depth sim m ycurrent IM_id) ''mult''
             (map EdgeC (IM_get_modifiers (IMs sim ! IM_id) (edge_id e))) ycontrib)))))"
  using assms by (simp add: get_modifiers_eq nth_err_def Let_def)

lemma nmul_left_commute: "nmul a (nmul k b) = nmul k (nmul a b)"
  by (cases a; cases k; cases b) simp_all

text \<open>Scaling the value of a multiplicative modifier scales the result by the same factor.\<close>

lemma apply_mods_mult_linear:
  assumes "c_mod_type m = Some ''mult''" and "r m = Inr v" and "r' m = Inr (map (nmul k) v)"
    and "length v = length y"
  shows "apply_mods r ''mult'' [m] y = Inr (map2 nmul y v)
       \<and> apply_mods r' ''mult'' [m] y = Inr (map (nmul k) (map2 nmul y v))"
proof -
  have "map2 nmul y (map (nmul k) v) = map (nmul k) (map2 nmul y v)"
    using assms(4) by (induction y v rule: list_induct2') (simp_all add: nmul_left_commute)
  then show ?thesis using assms by (simp add: ebind_def inplace_def)
qed

text \<open>
  The Hill term is not linear: scaling its input by 6 is not scaling its output by 6.
\<close>

lemma hill_not_linear: "hill 1 1 2 (nmul (Fin 6) (Fin 1)) \<noteq> nmul (Fin 6) (hill 1 1 2 (Fin 1))"
  by (simp add: hill_def is_integral_def)

text \<open>
  C3 (the code does not do what the claim says): an external contribution with an
  internal-type modifier interaction on it is not resolved at all. \<open>get_modifiers\<close>
  raises AttributeError on the first interaction that targets the id (it reads the
  attribute \<open>IM_id\<close>, which an \<open>Interaction\<close> does not have), before any row of the
  working matrix is scaled; and the loop that would scale the rows raises NameError
  for every internal-type modifier, since it calls \<open>resolve_contribution\<close> as a global
  function.
\<close>

theorem C3_external_intern_modifier_raises:
  assumes "external i" and "m \<in> set (interactions sim)"
    and "to_edge m = Some (EdgeId (int_id i))" and "link.mod_type m = Some ''intern''"
  shows "resolve_contribution (Suc depth) sim (InteractionC i) ycurrent IM_id = Inl AttributeError
       \<and> ext_intern_mods [m] ycurrent IM_id xcontrib = Inl NameError"
proof -
  have "list_ex (\<lambda>x. to_edge x = Some (EdgeId (int_id i))) (interactions sim)"
    using assms(2,3) by (auto simp: list_ex_iff)
  then have "get_modifiers sim (int_id i) None = Inl AttributeError"
    by (simp add: get_modifiers_eq)
  then show ?thesis
    using assms(1,4) by (simp add: ebind_def global_resolve_contribution_def)
qed

theorem C3_external_intern_modifier_raises_witness:
  "external diff_pair \<and> mod_intern \<in> set (interactions sim_pair_intern)
   \<and> to_edge mod_intern = Some (EdgeId (int_id diff_pair))
   \<and> link.mod_type mod_intern = Some ''intern''
   \<and> resolve_contribution 3 sim_pair_intern (InteractionC diff_pair) y_pair 0 = Inl AttributeError
   \<and> ext_intern_mods [mod_intern] y_pair 0 [[Fin 1, Fin 0], [Fin 1, Fin 0]] = Inl NameError"
proof -
  have a: "external diff_pair" by (simp add: diff_pair_eval)
  have b: "mod_intern \<in> set (interactions sim_pair_intern)" by (simp add: sim_pair_intern_def)
  have c: "to_edge mod_intern = Some (EdgeId (int_id diff_pair))"
    by (simp add: mod_intern_eval diff_pair_eval)
  have d: "link.mod_type mod_intern = Some ''intern''" by (simp add: mod_intern_eval)
  show ?thesis
    using C3_external_intern_modifier_raises [OF a b c d, of 2 y_pair 0
        "[[Fin 1, Fin 0], [Fin 1, Fin 0]]"] a b c d
    by (simp add: numeral_3_eq_3)
qed

text \<open>
  C4 (the code does not do what the claim says): when an interaction targets the id of an
  internal edge, resolving that edge raises AttributeError in \<open>get_modifiers\<close>; the
  external modifier is neither found nor multiplied into the input. (The modifier edges
  of the edge's own model are found and applied: \<open>resolve_internal_edge\<close>.)
\<close>

theorem C4_external_modifier_of_edge_raises:
  assumes "\<not> external e" and "IM_id < length (IMs sim)" and "m \<in> set (interactions sim)"
    and "to_edge m = Some (EdgeId (edge_id e))"
  shows "resolve_contribution (Suc depth) sim (EdgeC e) ycurrent IM_id = Inl AttributeError"
proof -
  have "list_ex (\<lambda>x. to_edge x = Some (EdgeId (edge_id e))) (interactions sim)"
    using assms(3,4) by (auto simp: list_ex_iff)
  then have "get_modifiers sim (edge_id e) (Some IM_id) = Inl AttributeError"
    by (simp add: get_modifiers_eq)
  then show ?thesis
    using assms(1,2) by (simp add: ebind_def nth_err_def)
qed

theorem C4_external_modifier_of_edge_raises_witness:
  "\<not> external (edges im_mod ! 0) \<and> 0 < length (IMs sim_mod_ext)
   \<and> mod_on_edge \<in> set (interactions sim_mod_ext)
   \<and> to_edge mod_on_edge = Some (EdgeId (edge_id (edges im_mod ! 0)))
   \<and> to_IM mod_on_edge = Some 0 \<and> link.mod_type mod_on_edge = Some ''intern''
   \<and> resolve_contribution 3 sim_mod_ext (EdgeC (edges im_mod ! 0)) y_mod 0 = Inl AttributeError"
proof -
  have a: "\<not> external (edges im_mod ! 0)" by (simp add: im_mod_eval)
  have b: "0 < length (IMs sim_mod_ext)" by (simp add: sim_mod_ext_def sim_mod_eval)
  have c: "mod_on_edge \<in> set (interactions sim_mod_ext)" by (simp add: sim_mod_ext_def)
  have d: "to_edge mod_on_edge = Some (EdgeId (edge_id (edges im_mod ! 0)))"
    by (simp add: mod_on_edge_eval im_mod_eval)
  have e: "to_IM mod_on_edge = Some 0 \<and> link.mod_type mod_on_edge = Some ''intern''"
    by (simp add: mod_on_edge_eval)
  show ?thesis
    using C4_external_modifier_of_edge_raises [OF a b c d, of 2 y_mod] a b c d e
    by (simp add: numeral_3_eq_3)
qed

text \<open>
  C6 (the code does not do what the claim says in the external branch): the diffusion of
  the two-compartment scenario resolves to \<open>[-1, 1]\<close>; with a multiplicative modifier on
  it, or with an internal-type one, the resolver raises AttributeError instead of
  scaling the output or the input. In the internal branch the rule holds: the edge 0 of
  \<open>im_mod\<close> at \<open>a = 1\<close>, \<open>u = 2\<close> gives \<open>(5 * 2) * hill (1 * (3 * 2)) = 360 / 37\<close>.
\<close>

theorem C6_modifier_ordering_external_raises:
  "resolve_contribution 3 sim_pair (InteractionC diff_pair) y_pair 0 = Inr [Fin (- 1), Fin 1]
   \<and> resolve_contribution 3 sim_pair_mult (InteractionC diff_pair) y_pair 0 = Inl AttributeError
   \<and> resolve_contribution 3 sim_pair_intern (InteractionC diff_pair) y_pair 0 = Inl AttributeError
   \<and> resolve_contribution 3 sim_mod (EdgeC (edges im_mod ! 0)) y_mod 0 = Inr [Fin (360 / 37)]"
  using resolve_pair [of 2] resolve_pair_mult [of 2] resolve_pair_intern [of 2] resolve_mod
  by (simp add: numeral_3_eq_3)

subsection \<open>The diffusion term\<close>

lemma length_slice: "length (slice lo hi xs) = min (hi - lo) (length xs - lo)"
  by (simp add: slice_def)

lemma nth_slice: "i < hi - lo \<Longrightarrow> lo + i < length xs \<Longrightarrow> slice lo hi xs ! i = xs ! (lo + i)"
  by (simp add: slice_def)

lemma nsum_Fin: "nsum (map Fin xs) = Fin (sum_list xs)"
  by (induction xs) (simp_all add: nsum_def)










text \<open>
  The sentinel is not a concentration: a NaN in the column of a connected compartment
  reaches the sum even where the distance weight is the masked 0.
\<close>

lemma Diffusion_apply_sentinel:
  "Diffusion_apply ((new_model Diffusion 1 False None)\<lparr>params_set := True, prm_C := Some 1,
            dist_pre := [[0, 0], [0, 0]], cmask := [[False, False], [False, False]]\<rparr>)
        [[Fin 1, NaN]] (0, 1) = Inr [NaN]"
  by (simp add: Diffusion_apply_def new_model_def slice_def same_shape_def nsum_def Let_def)



subsection \<open>The layout of the state and of the derivative\<close>

lemma length_cell_bounds: "length (cell_bounds low ns) = length ns"
  by (induction ns arbitrary: low) simp_all

lemma cell_bounds_nth:
  "i < length ns \<Longrightarrow>
     cell_bounds low ns ! i = (low + sum_list (take i ns), low + sum_list (take i ns) + ns ! i)"
proof (induction ns arbitrary: low i)
  case Nil
  then show ?case by simp
next
  case (Cons n ns)
  then show ?case by (cases i) (simp_all add: add.commute add.left_commute)
qed

lemma length_cumulative: "length (cumulative prev xs) = length xs"
  by (induction xs arbitrary: prev) simp_all

lemma cumulative_nth:
  "i < length xs \<Longrightarrow> cumulative prev xs ! i = prev + sum_list (take (Suc i) xs)"
proof (induction xs arbitrary: prev i)
  case Nil
  then show ?case by simp
next
  case (Cons x xs)
  then show ?case by (cases i) (simp_all add: add.commute add.left_commute)
qed

lemma deriv_bounds_nth:
  "i \<le> length dims \<Longrightarrow>
     deriv_bounds dims ! i = sum_list (map (\<lambda>(a, b). a * b) (take i dims))"
  by (cases i) (simp_all add: deriv_bounds_def cumulative_nth take_map)

lemma length_deriv_bounds: "length (deriv_bounds dims) = Suc (length dims)"
  by (simp add: deriv_bounds_def length_cumulative)

lemma emap_Inr:
  "(\<And>x. x \<in> set xs \<Longrightarrow> f x = Inr (g x)) \<Longrightarrow> emap f xs = Inr (map g xs)"
  by (induction xs) simp_all

lemma emap_InrD:
  "emap f xs = Inr ys \<Longrightarrow> length ys = length xs \<and> (\<forall>k<length xs. f (xs ! k) = Inr (ys ! k))"
proof (induction xs arbitrary: ys)
  case Nil
  then show ?case by simp
next
  case (Cons x xs)
  then obtain y ys' where y: "f x = Inr y" and ys': "emap f xs = Inr ys'" and e: "ys = y # ys'"
    by (auto simp: ebind_def split: sum.splits)
  from Cons.IH[OF ys'] y e show ?case by (auto simp: nth_Cons split: nat.splits)
qed

lemma foldl_append_concat: "foldl (@) xs xss = xs @ concat xss"
  by (induction xss arbitrary: xs) simp_all

lemma reduce_append_eq:
  "reduce_append xss = (if xss = [] then Inl TypeError else Inr (concat xss))"
  by (cases xss) (simp_all add: reduce_append_def foldl_append_concat)

lemma concat_nth_offset:
  "i < length xss \<Longrightarrow> p < length (xss ! i) \<Longrightarrow>
     concat xss ! (sum_list (map length (take i xss)) + p) = xss ! i ! p"
proof (induction xss arbitrary: i)
  case Nil
  then show ?case by simp
next
  case (Cons xs xss)
  then show ?case by (cases i) (simp_all add: nth_append)
qed

lemma state_dims_nth:
  "length (IM_cells sim) = length (IMs sim) \<Longrightarrow> i < length (IMs sim) \<Longrightarrow>
     state_dims sim ! i = (length (IM_cells sim ! i), num_nodes (IMs sim ! i))"
  by (simp add: state_dims_def)

lemma length_state_dims:
  "length (IM_cells sim) = length (IMs sim) \<Longrightarrow> length (state_dims sim) = length (IMs sim)"
  by (simp add: state_dims_def)

lemma deriv_ncells:
  assumes "length (IM_cells sim) = length (IMs sim)"
  shows "emap (\<lambda>i. ebind (nth_err (IM_cells sim) i) (\<lambda>g. Inr (length g))) [0..<length (IMs sim)]
           = Inr (map length (IM_cells sim))"
proof -
  have "emap (\<lambda>i. ebind (nth_err (IM_cells sim) i) (\<lambda>g. Inr (length g))) [0..<length (IMs sim)]
          = Inr (map (\<lambda>i. length (IM_cells sim ! i)) [0..<length (IMs sim)])"
    by (rule emap_Inr) (use assms in \<open>simp add: nth_err_def\<close>)
  also have "map (\<lambda>i. length (IM_cells sim ! i)) [0..<length (IMs sim)] = map length (IM_cells sim)"
    using assms by (auto intro!: nth_equalityI)
  finally show ?thesis .
qed

lemma deriv_unfold:
  assumes "length (IM_cells sim) = length (IMs sim)"
  shows "deriv depth sim y t =
     ebind (emap (\<lambda>i. reshape_slice y (deriv_bounds (state_dims sim) ! i)
                        (deriv_bounds (state_dims sim) ! (i + 1)) (state_dims sim ! i))
              [0..<length (IMs sim)]) (\<lambda>ycurrent.
     ebind (deriv_groups (\<lambda>i c. resolve_contribution depth sim c ycurrent i) sim
              [0..<length (IMs sim)] (map zeros (state_dims sim))) (\<lambda>yprime.
     reduce_append (map dat yprime)))"
  using assms
  by (simp add: deriv_def deriv_ncells Let_def state_dims_def)



lemma same_dims_refl: "same_dims m m"
  by (simp add: same_dims_def)

lemma same_dims_trans: "same_dims a b \<Longrightarrow> same_dims b c \<Longrightarrow> same_dims a c"
  by (simp add: same_dims_def)

lemma set_column_dims: "same_dims m (set_column m j col)"
  by (simp add: same_dims_def set_column_def)

lemma entry_set_column:
  assumes "mat_ok m" "r < nrows m" "k < ncols m"
  shows "entry (set_column m j col) r k = (if k = j then col ! r else entry m r k)"
proof -
  have "r * ncols m + k < nrows m * ncols m"
  proof -
    have "r * ncols m + k < r * ncols m + ncols m" using assms(3) by simp
    also have "\<dots> = Suc r * ncols m" by simp
    also have "\<dots> \<le> nrows m * ncols m" using assms(2) by (intro mult_le_mono1) simp
    finally show ?thesis .
  qed
  then have lt: "r * ncols m + k < length (dat m)" using assms(1) by (simp add: mat_ok_def)
  have md: "(r * ncols m + k) mod ncols m = k" "(r * ncols m + k) div ncols m = r"
    using assms(3) by simp_all
  have "entry (set_column m j col) r k =
          (if (r * ncols m + k) mod ncols m = j then col ! ((r * ncols m + k) div ncols m)
           else dat m ! (r * ncols m + k))"
    using lt by (simp add: entry_def set_column_def)
  then show ?thesis unfolding md by (simp add: entry_def)
qed

lemma inplace_length: "inplace f a b = Inr r \<Longrightarrow> length r = length a"
  by (auto simp: inplace_def split: if_splits)

lemma inplace_same_length:
  "length b = length a \<Longrightarrow> inplace f a b = Inr (map2 f a b)"
  by (simp add: inplace_def)

lemma add_column_entry:
  assumes "mat_ok m" and "add_column m j v = Inr m'" and "length v = nrows m"
  shows "same_dims m m'" and "mat_ok m'" and "j < ncols m"
    and "\<And>r k. r < nrows m \<Longrightarrow> k < ncols m \<Longrightarrow>
           entry m' r k = (if k = j then nadd (entry m r j) (v ! r) else entry m r k)"
proof -
  from assms(2) have j: "j < ncols m"
    by (auto simp: add_column_def column_def split: if_splits)
  let ?col = "map (\<lambda>r. entry m r j) [0..<nrows m]"
  have m': "m' = set_column m j (map2 nadd ?col v)"
    using assms(2,3) j by (simp add: add_column_def column_def inplace_same_length)
  show "same_dims m m'" by (simp add: m' set_column_dims)
  then show "mat_ok m'" using assms(1) by (simp add: same_dims_def mat_ok_def)
  show "j < ncols m" by (rule j)
  fix r k assume "r < nrows m" "k < ncols m"
  then show "entry m' r k = (if k = j then nadd (entry m r j) (v ! r) else entry m r k)"
    using assms(1,3) by (simp add: m' entry_set_column)
qed

lemma accumulate_entries:
  assumes "mat_ok yp" and "accumulate res cs j yp = Inr yp'"
    and "\<And>c v. c \<in> set cs \<Longrightarrow> res c = Inr v \<Longrightarrow> length v = nrows yp"
  shows "same_dims yp yp' \<and> mat_ok yp' \<and> list_all (\<lambda>c. \<not> isl (res c)) cs
       \<and> (\<forall>r<nrows yp. \<forall>k<ncols yp. entry yp' r k =
            (if k = j then foldl nadd (entry yp r j) (map (\<lambda>c. projr (res c) ! r) cs)
             else entry yp r k))"
  using assms
proof (induction cs arbitrary: yp)
  case Nil
  then show ?case by (simp add: same_dims_refl)
next
  case (Cons c cs)
  from Cons.prems(2) obtain v yp1 where v: "res c = Inr v"
    and a: "add_column yp j v = Inr yp1" and rest: "accumulate res cs j yp1 = Inr yp'"
    by (auto simp: ebind_def split: sum.splits)
  have lv: "length v = nrows yp" using Cons.prems(3)[of c v] v by simp
  note ac = add_column_entry[OF Cons.prems(1) a lv]
  have d1: "nrows yp1 = nrows yp" "ncols yp1 = ncols yp" using ac(1) by (simp_all add: same_dims_def)
  have ih: "same_dims yp1 yp' \<and> mat_ok yp' \<and> list_all (\<lambda>c. \<not> isl (res c)) cs
       \<and> (\<forall>r<nrows yp1. \<forall>k<ncols yp1. entry yp' r k =
            (if k = j then foldl nadd (entry yp1 r j) (map (\<lambda>c. projr (res c) ! r) cs)
             else entry yp1 r k))"
    by (rule Cons.IH[OF ac(2) rest]) (use Cons.prems(3) d1 in auto)
  show ?case
    using ih ac(1,3,4) v d1 same_dims_trans[OF ac(1)] by auto
qed


lemma deriv_species_entries:
  assumes "mat_ok yp" and "deriv_species res sim i js yp = Inr yp'" and "distinct js"
    and "\<And>j c v. j \<in> set js \<Longrightarrow> c \<in> set (contributions_of sim i j) \<Longrightarrow> res i c = Inr v
           \<Longrightarrow> length v = nrows yp"
  shows "same_dims yp yp' \<and> mat_ok yp'
       \<and> (\<forall>j\<in>set js. list_all (\<lambda>c. \<not> isl (res i c)) (contributions_of sim i j))
       \<and> (\<forall>r<nrows yp. \<forall>k<ncols yp. entry yp' r k =
            (if k \<in> set js
             then foldl nadd (entry yp r k) (map (\<lambda>c. projr (res i c) ! r) (contributions_of sim i k))
             else entry yp r k))"
  using assms
proof (induction js arbitrary: yp)
  case Nil
  then show ?case by (simp add: same_dims_refl)
next
  case (Cons j js)
  from Cons.prems(2) obtain yp1 where
    a: "accumulate (res i) (contributions_of sim i j) j yp = Inr yp1"
    and rest: "deriv_species res sim i js yp1 = Inr yp'"
    by (auto simp: ebind_def split: sum.splits)
  have acc: "same_dims yp yp1 \<and> mat_ok yp1
       \<and> list_all (\<lambda>c. \<not> isl (res i c)) (contributions_of sim i j)
       \<and> (\<forall>r<nrows yp. \<forall>k<ncols yp. entry yp1 r k =
            (if k = j then foldl nadd (entry yp r j)
                             (map (\<lambda>c. projr (res i c) ! r) (contributions_of sim i j))
             else entry yp r k))"
    by (rule accumulate_entries[OF Cons.prems(1) a]) (use Cons.prems(4) in auto)
  then have d1: "nrows yp1 = nrows yp" "ncols yp1 = ncols yp" by (simp_all add: same_dims_def)
  have jn: "j \<notin> set js" and dj: "distinct js" using Cons.prems(3) by simp_all
  have ih: "same_dims yp1 yp' \<and> mat_ok yp'
       \<and> (\<forall>j\<in>set js. list_all (\<lambda>c. \<not> isl (res i c)) (contributions_of sim i j))
       \<and> (\<forall>r<nrows yp1. \<forall>k<ncols yp1. entry yp' r k =
            (if k \<in> set js
             then foldl nadd (entry yp1 r k) (map (\<lambda>c. projr (res i c) ! r) (contributions_of sim i k))
             else entry yp1 r k))"
    by (rule Cons.IH[OF _ rest dj]) (use acc Cons.prems(4) d1 in auto)
  have "same_dims yp yp'" using acc ih same_dims_trans by blast
  moreover have "\<forall>r<nrows yp. \<forall>k<ncols yp. entry yp' r k =
            (if k \<in> set (j # js)
             then foldl nadd (entry yp r k) (map (\<lambda>c. projr (res i c) ! r) (contributions_of sim i k))
             else entry yp r k)"
    using ih acc d1 jn by auto
  ultimately show ?case using ih acc by simp
qed

lemma deriv_groups_nth:
  assumes "deriv_groups res sim idxs yp = Inr yp'" and "distinct idxs"
    and "\<And>i. i \<in> set idxs \<Longrightarrow> i < length yp"
  shows "length yp' = length yp
       \<and> (\<forall>i<length yp.
            if i \<in> set idxs
            then deriv_species res sim i [0..<num_nodes (IMs sim ! i)] (yp ! i) = Inr (yp' ! i)
            else yp' ! i = yp ! i)"
  using assms
proof (induction idxs arbitrary: yp)
  case Nil
  then show ?case by simp
next
  case (Cons i idxs)
  from Cons.prems(1) obtain m where
    m: "deriv_species res sim i [0..<num_nodes (IMs sim ! i)] (yp ! i) = Inr m"
    and rest: "deriv_groups res sim idxs (yp[i := m]) = Inr yp'"
    by (auto simp: ebind_def split: sum.splits)
  have i: "i < length yp" "i \<notin> set idxs" "distinct idxs" using Cons.prems(2,3) by simp_all
  have ih: "length yp' = length (yp[i := m])
       \<and> (\<forall>k<length (yp[i := m]).
            if k \<in> set idxs
            then deriv_species res sim k [0..<num_nodes (IMs sim ! k)] (yp[i := m] ! k) = Inr (yp' ! k)
            else yp' ! k = yp[i := m] ! k)"
    by (rule Cons.IH[OF rest i(3)]) (use Cons.prems(3) in simp)
  show ?case
  proof (intro conjI allI impI)
    show "length yp' = length yp" using ih by simp
  next
    fix k assume k: "k < length yp"
    show "if k \<in> set (i # idxs)
            then deriv_species res sim k [0..<num_nodes (IMs sim ! k)] (yp ! k) = Inr (yp' ! k)
            else yp' ! k = yp ! k"
    proof (cases "k = i")
      case True
      then show ?thesis using ih i m k by simp
    next
      case False
      then show ?thesis using ih k by (auto simp: nth_list_update)
    qed
  qed
qed

lemma apply_mods_length: "apply_mods res ty ms acc = Inr out \<Longrightarrow> length out = length acc"
proof (induction ms arbitrary: acc)
  case Nil
  then show ?case by simp
next
  case (Cons m ms)
  show ?case
  proof (cases "c_mod_type m = Some ty")
    case True
    with Cons.prems obtain v acc' where "res m = Inr v" "inplace nmul acc v = Inr acc'"
      "apply_mods res ty ms acc' = Inr out"
      by (auto simp: ebind_def split: sum.splits)
    then show ?thesis using Cons.IH[of acc'] inplace_length[of nmul acc v acc'] by simp
  next
    case False
    then show ?thesis using Cons by simp
  qed
qed

lemma apply_term_length: "apply_term m x = Inr y \<Longrightarrow> length y = length x"
  by (auto simp: apply_term_def split: kind.splits option.splits)

lemma Diffusion_apply_length: "Diffusion_apply m x b = Inr y \<Longrightarrow> length y = length x"
  by (auto simp: Diffusion_apply_def Let_def same_shape_def split: if_splits option.splits
      dest!: list_all2_lengthD)

lemma column_length: "column m j = Inr col \<Longrightarrow> length col = nrows m"
  by (auto simp: column_def split: if_splits)

lemma ext_intern_mods_length:
  "ext_intern_mods ms y g x = Inr x' \<Longrightarrow> length x' = length x"
  by (induction ms arbitrary: x) (auto simp: global_resolve_contribution_def split: if_splits)

lemma resolve_length:
  assumes "resolve_contribution depth sim c ycurrent i = Inr v"
  shows "length v = (if c_external c then length (IM_cells sim ! i) else nrows (ycurrent ! i))"
proof (cases depth)
  case 0
  then show ?thesis using assms by simp
next
  case (Suc d)
  show ?thesis
  proof (cases "c_external c")
    case True
    with assms Suc obtain ext_mods group xc xc' b yc where
      g: "nth_err (IM_cells sim) i = Inr group"
      and x: "ext_intern_mods ext_mods ycurrent i (replicate (length group) xc) = Inr xc'"
      and a: "apply_external (c_model c) xc' b = Inr yc"
      and m: "apply_mods (\<lambda>m. resolve_contribution d sim m ycurrent i) ''mult''
                (map InteractionC ext_mods) yc = Inr v"
      by (auto simp: ebind_def split: sum.splits)
    from a have "length yc = length xc'"
      by (auto simp: apply_external_def dest: Diffusion_apply_length split: if_splits)
    moreover have "length xc' = length group" using ext_intern_mods_length[OF x] by simp
    moreover have "group = IM_cells sim ! i" using g by (auto simp: nth_err_def split: if_splits)
    ultimately show ?thesis using apply_mods_length[OF m] True by simp
  next
    case False
    with assms Suc obtain fid mods xc xc' yc yc0 where
      y: "nth_err ycurrent i = Inr yc0"
      and col: "column yc0 fid = Inr xc"
      and m1: "apply_mods (\<lambda>m. resolve_contribution d sim m ycurrent i) ''intern'' mods xc = Inr xc'"
      and t: "apply_term (c_model c) xc' = Inr yc"
      and m2: "apply_mods (\<lambda>m. resolve_contribution d sim m ycurrent i) ''mult'' mods yc = Inr v"
      by (auto simp: ebind_def Let_def split: sum.splits)
    have "yc0 = ycurrent ! i" using y by (auto simp: nth_err_def split: if_splits)
    then show ?thesis
      using apply_mods_length[OF m2] apply_term_length[OF t] apply_mods_length[OF m1]
        column_length[OF col] False by simp
  qed
qed


lemma mat_ok_zeros: "mat_ok (zeros d)"
  by (simp add: mat_ok_def zeros_def)

lemma entry_zeros:
  assumes "r < fst d" "k < snd d"
  shows "entry (zeros d) r k = Fin 0"
proof -
  have "r * snd d + k < r * snd d + snd d" using assms(2) by simp
  also have "\<dots> = Suc r * snd d" by simp
  also have "\<dots> \<le> fst d * snd d" using assms(1) by (intro mult_le_mono1) simp
  finally show ?thesis by (simp add: entry_def zeros_def)
qed

lemma entry_index:
  assumes "r < a" "k < b"
  shows "r * b + k < a * (b::nat)"
proof -
  have "r * b + k < r * b + b" using assms(2) by simp
  also have "\<dots> = Suc r * b" by simp
  also have "\<dots> \<le> a * b" using assms(1) by (intro mult_le_mono1) simp
  finally show ?thesis .
qed

lemma deriv_entries:
  assumes wf: "length (IM_cells sim) = length (IMs sim)"
    and d: "deriv depth sim y t = Inr dy"
  shows "length dy = state_size sim"
    and "\<And>i. i < length (IMs sim) \<Longrightarrow>
           length (slice (state_offset sim i) (state_offset sim (i + 1)) y)
             = length (IM_cells sim ! i) * num_nodes (IMs sim ! i)"
    and "\<And>i j. i < length (IMs sim) \<Longrightarrow> j < num_nodes (IMs sim ! i) \<Longrightarrow>
           list_all (\<lambda>c. \<not> isl (resolve_contribution depth sim c (reshaped_state sim y) i))
             (contributions_of sim i j)"
    and "\<And>i r j. i < length (IMs sim) \<Longrightarrow> r < length (IM_cells sim ! i)
           \<Longrightarrow> j < num_nodes (IMs sim ! i) \<Longrightarrow>
           dy ! (state_offset sim i + r * num_nodes (IMs sim ! i) + j) =
             foldl nadd (Fin 0)
               (map (\<lambda>c. projr (resolve_contribution depth sim c (reshaped_state sim y) i) ! r)
                  (contributions_of sim i j))"
proof -
  let ?n = "length (IMs sim)"
  let ?dims = "state_dims sim"
  let ?B = "deriv_bounds ?dims"
  have ld: "length ?dims = ?n" using wf by (rule length_state_dims)
  have dn: "\<And>i. i < ?n \<Longrightarrow> ?dims ! i = (length (IM_cells sim ! i), num_nodes (IMs sim ! i))"
    using wf by (rule state_dims_nth)
  have B: "\<And>i. i \<le> ?n \<Longrightarrow> ?B ! i = state_offset sim i"
    using ld by (simp add: deriv_bounds_nth state_offset_def)
  from d obtain ycurrent yprime where
    yc: "emap (\<lambda>i. reshape_slice y (?B ! i) (?B ! (i + 1)) (?dims ! i)) [0..<?n] = Inr ycurrent"
    and yp: "deriv_groups (\<lambda>i c. resolve_contribution depth sim c ycurrent i) sim
              [0..<?n] (map zeros ?dims) = Inr yprime"
    and ra: "reduce_append (map dat yprime) = Inr dy"
    unfolding deriv_unfold[OF wf] by (auto simp: ebind_def split: sum.splits)
  from emap_InrD[OF yc] have lyc: "length ycurrent = ?n"
    and ycn: "\<And>k. k < ?n \<Longrightarrow> reshape_slice y (?B ! k) (?B ! (k + 1)) (?dims ! k) = Inr (ycurrent ! k)"
    by auto
  have sl: "length (slice (state_offset sim i) (state_offset sim (i + 1)) y)
             = length (IM_cells sim ! i) * num_nodes (IMs sim ! i)"
    and yci: "ycurrent ! i = \<lparr>nrows = length (IM_cells sim ! i), ncols = num_nodes (IMs sim ! i),
               dat = slice (state_offset sim i) (state_offset sim (i + 1)) y\<rparr>"
    if i: "i < ?n" for i
    using ycn[OF i] i by (auto simp: reshape_slice_def B dn split: if_splits)
  have ycur: "ycurrent = reshaped_state sim y"
    unfolding reshaped_state_def using lyc yci by (auto intro!: nth_equalityI)
  show "\<And>i. i < ?n \<Longrightarrow> length (slice (state_offset sim i) (state_offset sim (i + 1)) y)
             = length (IM_cells sim ! i) * num_nodes (IMs sim ! i)"
    by (rule sl)
  have gr: "length yprime = length (map zeros ?dims)
       \<and> (\<forall>i<length (map zeros ?dims).
            if i \<in> set [0..<?n]
            then deriv_species (\<lambda>i c. resolve_contribution depth sim c ycurrent i) sim i
                   [0..<num_nodes (IMs sim ! i)] (map zeros ?dims ! i) = Inr (yprime ! i)
            else yprime ! i = map zeros ?dims ! i)"
    by (rule deriv_groups_nth[OF yp]) (simp_all add: ld)
  then have lyp: "length yprime = ?n" by (simp add: ld)
  have sp: "deriv_species (\<lambda>i c. resolve_contribution depth sim c ycurrent i) sim i
                   [0..<num_nodes (IMs sim ! i)] (zeros (?dims ! i)) = Inr (yprime ! i)"
    if i: "i < ?n" for i
    using gr i by (simp add: ld)
  have ent: "same_dims (zeros (?dims ! i)) (yprime ! i) \<and> mat_ok (yprime ! i)
       \<and> (\<forall>j\<in>set [0..<num_nodes (IMs sim ! i)].
             list_all (\<lambda>c. \<not> isl (resolve_contribution depth sim c ycurrent i)) (contributions_of sim i j))
       \<and> (\<forall>r<nrows (zeros (?dims ! i)). \<forall>k<ncols (zeros (?dims ! i)). entry (yprime ! i) r k =
            (if k \<in> set [0..<num_nodes (IMs sim ! i)]
             then foldl nadd (entry (zeros (?dims ! i)) r k)
                    (map (\<lambda>c. projr (resolve_contribution depth sim c ycurrent i) ! r)
                       (contributions_of sim i k))
             else entry (zeros (?dims ! i)) r k))"
    if i: "i < ?n" for i
  proof (rule deriv_species_entries[OF mat_ok_zeros sp[OF i]])
    show "distinct [0..<num_nodes (IMs sim ! i)]" by simp
    fix j c v
    assume "resolve_contribution depth sim c ycurrent i = Inr v"
    from resolve_length[OF this] show "length v = nrows (zeros (?dims ! i))"
      using i by (simp add: yci dn zeros_def)
  qed
  show "\<And>i j. i < ?n \<Longrightarrow> j < num_nodes (IMs sim ! i) \<Longrightarrow>
           list_all (\<lambda>c. \<not> isl (resolve_contribution depth sim c (reshaped_state sim y) i))
             (contributions_of sim i j)"
    using ent ycur by simp
  have shp: "nrows (yprime ! i) = length (IM_cells sim ! i)"
       "ncols (yprime ! i) = num_nodes (IMs sim ! i)"
       "length (dat (yprime ! i)) = length (IM_cells sim ! i) * num_nodes (IMs sim ! i)"
    if i: "i < ?n" for i
    using ent[OF i] i by (simp_all add: same_dims_def zeros_def dn)
  have ne: "yprime \<noteq> []" and dy: "dy = concat (map dat yprime)"
    using ra by (auto simp: reduce_append_eq split: if_splits)
  have lens: "map length (map dat yprime) = map (\<lambda>(a, b). a * b) ?dims"
    using lyp ld shp dn by (auto intro!: nth_equalityI)
  show "length dy = state_size sim"
    unfolding dy length_concat lens state_size_def ..
  fix i r j
  assume i: "i < ?n" and r: "r < length (IM_cells sim ! i)" and j: "j < num_nodes (IMs sim ! i)"
  let ?b = "num_nodes (IMs sim ! i)"
  have p: "r * ?b + j < length (map dat yprime ! i)"
    using entry_index[OF r j] shp(3)[OF i] i lyp by simp
  have "map length (take i (map dat yprime)) = map (\<lambda>(a, b). a * b) (take i ?dims)"
    unfolding take_map[symmetric] lens ..
  then have off: "sum_list (map length (take i (map dat yprime))) = state_offset sim i"
    by (simp only: state_offset_def)
  have "dy ! (state_offset sim i + (r * ?b + j)) = map dat yprime ! i ! (r * ?b + j)"
    unfolding dy off[symmetric]
    by (rule concat_nth_offset) (use i lyp p in simp_all)
  also have "\<dots> = entry (yprime ! i) r j"
    using i lyp shp(2)[OF i] by (simp add: entry_def)
  also have "\<dots> = foldl nadd (Fin 0)
               (map (\<lambda>c. projr (resolve_contribution depth sim c ycurrent i) ! r)
                  (contributions_of sim i j))"
  proof -
    have ez: "entry (zeros (?dims ! i)) r j = Fin 0"
      by (rule entry_zeros) (use r j i in \<open>simp_all add: dn\<close>)
    have nz: "nrows (zeros (?dims ! i)) = length (IM_cells sim ! i)"
      "ncols (zeros (?dims ! i)) = num_nodes (IMs sim ! i)"
      using i by (simp_all add: zeros_def dn)
    show ?thesis using ent[OF i] r j ez nz by simp
  qed
  finally show "dy ! (state_offset sim i + r * ?b + j) =
             foldl nadd (Fin 0)
               (map (\<lambda>c. projr (resolve_contribution depth sim c (reshaped_state sim y) i) ! r)
                  (contributions_of sim i j))"
    by (simp add: ycur add.assoc)
qed

lemma concat_uniform:
  assumes "\<And>x. x \<in> set xss \<Longrightarrow> length x = b"
  shows "length (concat xss) = length xss * b"
    and "r < length xss \<Longrightarrow> j < b \<Longrightarrow> concat xss ! (r * b + j) = xss ! r ! j"
proof -
  have ml: "map length xss = replicate (length xss) b"
    using assms by (auto intro!: nth_equalityI)
  show "length (concat xss) = length xss * b"
    by (simp add: length_concat ml sum_list_replicate)
  assume r: "r < length xss" and j: "j < b"
  have "sum_list (map length (take r xss)) = r * b"
    using r by (simp add: take_map[symmetric] ml sum_list_replicate min_def)
  moreover have "j < length (xss ! r)" using assms r j by simp
  ultimately show "concat xss ! (r * b + j) = xss ! r ! j"
    using concat_nth_offset[OF r, of j] by simp
qed

lemma initial_group_fit:
  assumes "i < length (IM_cells sim)"
    and "list_all (\<lambda>cid. cid < length (cells sim)
                      \<and> (case IC (cells sim ! cid) of None \<Rightarrow> False
                          | Some v \<Rightarrow> length v = num_nodes (IMs sim ! i))) (IM_cells sim ! i)"
  shows "initial_group sim i =
           Inr (concat (map (\<lambda>cid. the (IC (cells sim ! cid))) (IM_cells sim ! i)))"
proof -
  have "emap (\<lambda>cid. ebind (nth_err (cells sim) cid) (\<lambda>c.
                   assign_row (num_nodes (IMs sim ! i)) (IC c))) (IM_cells sim ! i)
        = Inr (map (\<lambda>cid. the (IC (cells sim ! cid))) (IM_cells sim ! i))"
    by (rule emap_Inr)
      (use assms(2) in \<open>auto simp: list_all_iff nth_err_def assign_row_def split: option.splits\<close>)
  then show ?thesis using assms(1) by (simp add: initial_group_def nth_err_def)
qed

lemma initial_state_fit:
  assumes wf: "length (IM_cells sim) = length (IMs sim)" and ne: "IMs sim \<noteq> []"
    and fit: "ICs_fit sim"
  shows "initial_state sim =
           Inr (concat (map (\<lambda>i. concat (map (\<lambda>cid. the (IC (cells sim ! cid))) (IM_cells sim ! i)))
                          [0..<length (IMs sim)]))"
proof -
  have "emap (initial_group sim) [0..<length (IMs sim)]
          = Inr (map (\<lambda>i. concat (map (\<lambda>cid. the (IC (cells sim ! cid))) (IM_cells sim ! i)))
                   [0..<length (IMs sim)])"
    by (rule emap_Inr, rule initial_group_fit)
      (use wf fit in \<open>auto simp: ICs_fit_def list_all_iff\<close>)
  then show ?thesis using ne by (simp add: initial_state_def reduce_append_eq)
qed

lemma laid_outI:
  assumes "length v = state_size sim"
    and "\<And>i r j. i < length (IMs sim) \<Longrightarrow> r < length (IM_cells sim ! i)
           \<Longrightarrow> j < num_nodes (IMs sim ! i)
           \<Longrightarrow> v ! (state_offset sim i + r * num_nodes (IMs sim ! i) + j) = f i r j"
  shows "laid_out sim v f"
  using assms by (simp add: laid_out_def list_all_iff)

lemma state_offset_Suc:
  assumes "length (IM_cells sim) = length (IMs sim)" "i < length (IMs sim)"
  shows "state_offset sim (Suc i) = state_offset sim i + length (IM_cells sim ! i) * num_nodes (IMs sim ! i)"
proof -
  have "i < length (state_dims sim)" using assms by (simp add: length_state_dims)
  then show ?thesis
    using state_dims_nth[OF assms] by (simp add: state_offset_def take_Suc_conv_app_nth)
qed

lemma initial_state_laid_out:
  assumes wf: "length (IM_cells sim) = length (IMs sim)" and ne: "IMs sim \<noteq> []"
    and fit: "ICs_fit sim"
  shows "\<exists>y0. initial_state sim = Inr y0
           \<and> laid_out sim y0 (\<lambda>i r j. the (IC (cells sim ! (IM_cells sim ! i ! r))) ! j)"
proof -
  let ?n = "length (IMs sim)"
  let ?g = "\<lambda>i. concat (map (\<lambda>cid. the (IC (cells sim ! cid))) (IM_cells sim ! i))"
  let ?y0 = "concat (map ?g [0..<?n])"
  have rowlen: "length (the (IC (cells sim ! cid))) = num_nodes (IMs sim ! i)"
    if "i < ?n" "cid \<in> set (IM_cells sim ! i)" for i cid
    using fit that by (auto simp: ICs_fit_def list_all_iff split: option.splits)
  have glen: "length (?g i) = length (IM_cells sim ! i) * num_nodes (IMs sim ! i)" if "i < ?n" for i
    using concat_uniform(1)[of "map (\<lambda>cid. the (IC (cells sim ! cid))) (IM_cells sim ! i)"
        "num_nodes (IMs sim ! i)"] rowlen[OF that] by auto
  have gnth: "?g i ! (r * num_nodes (IMs sim ! i) + j) = the (IC (cells sim ! (IM_cells sim ! i ! r))) ! j"
    if "i < ?n" "r < length (IM_cells sim ! i)" "j < num_nodes (IMs sim ! i)" for i r j
    using concat_uniform(2)[of "map (\<lambda>cid. the (IC (cells sim ! cid))) (IM_cells sim ! i)"
        "num_nodes (IMs sim ! i)" r j] rowlen[OF that(1)] that by auto
  have lens: "map length (map ?g [0..<?n]) = map (\<lambda>(a, b). a * b) (state_dims sim)"
    using glen wf by (auto intro!: nth_equalityI simp: state_dims_def)
  have "laid_out sim ?y0 (\<lambda>i r j. the (IC (cells sim ! (IM_cells sim ! i ! r))) ! j)"
  proof (rule laid_outI)
    show "length ?y0 = state_size sim"
      unfolding length_concat lens state_size_def ..
    fix i r j
    assume i: "i < ?n" and r: "r < length (IM_cells sim ! i)" and j: "j < num_nodes (IMs sim ! i)"
    have "map length (take i (map ?g [0..<?n])) = map (\<lambda>(a, b). a * b) (take i (state_dims sim))"
      unfolding take_map[symmetric] lens ..
    then have off: "sum_list (map length (take i (map ?g [0..<?n]))) = state_offset sim i"
      by (simp only: state_offset_def)
    have p: "r * num_nodes (IMs sim ! i) + j < length (map ?g [0..<?n] ! i)"
      using entry_index[OF r j] glen[OF i] i by simp
    have "?y0 ! (state_offset sim i + (r * num_nodes (IMs sim ! i) + j))
            = map ?g [0..<?n] ! i ! (r * num_nodes (IMs sim ! i) + j)"
      unfolding off[symmetric] by (rule concat_nth_offset) (use i p in simp_all)
    then show "?y0 ! (state_offset sim i + r * num_nodes (IMs sim ! i) + j)
            = the (IC (cells sim ! (IM_cells sim ! i ! r))) ! j"
      using gnth[OF i r j] i by (simp add: add.assoc)
  qed
  then show ?thesis using initial_state_fit[OF wf ne fit] by blast
qed

lemma set_cell_bounds_partitions:
  "partitions (IM_bounds (set_cell_bounds sim)) (map length (IM_cells sim))"
  by (simp add: partitions_def set_cell_bounds_def length_cell_bounds cell_bounds_nth list_all_iff)

lemma deriv_bounds_partitions:
  "partitions (zip (deriv_bounds dims) (tl (deriv_bounds dims))) (map (\<lambda>(a, b). a * b) dims)"
proof -
  have "length (zip (deriv_bounds dims) (tl (deriv_bounds dims))) = length dims"
    by (simp add: length_deriv_bounds)
  moreover have "fst (zip (deriv_bounds dims) (tl (deriv_bounds dims)) ! i)
                   = sum_list (take i (map (\<lambda>(a, b). a * b) dims))
     \<and> snd (zip (deriv_bounds dims) (tl (deriv_bounds dims)) ! i)
          = fst (zip (deriv_bounds dims) (tl (deriv_bounds dims)) ! i) + map (\<lambda>(a, b). a * b) dims ! i"
    if "i < length dims" for i
    using that deriv_bounds_nth[of i dims] deriv_bounds_nth[of "Suc i" dims]
    by (simp add: length_deriv_bounds nth_tl take_map take_Suc_conv_app_nth)
  ultimately show ?thesis by (simp add: partitions_def list_all_iff)
qed

lemma reshaped_state_entry:
  assumes "i < length (IMs sim)" "r < length (IM_cells sim ! i)" "j < num_nodes (IMs sim ! i)"
    and "length (slice (state_offset sim i) (state_offset sim (i + 1)) y)
           = length (IM_cells sim ! i) * num_nodes (IMs sim ! i)"
  shows "entry (reshaped_state sim y ! i) r j = y ! (state_offset sim i + r * num_nodes (IMs sim ! i) + j)"
proof -
  have p: "r * num_nodes (IMs sim ! i) + j < length (slice (state_offset sim i) (state_offset sim (i + 1)) y)"
    using entry_index[OF assms(2,3)] assms(4) by simp
  then have "r * num_nodes (IMs sim ! i) + j < state_offset sim (i + 1) - state_offset sim i"
    and "state_offset sim i + (r * num_nodes (IMs sim ! i) + j) < length y"
    by (auto simp: length_slice)
  then have "slice (state_offset sim i) (state_offset sim (i + 1)) y ! (r * num_nodes (IMs sim ! i) + j)
          = y ! (state_offset sim i + (r * num_nodes (IMs sim ! i) + j))"
    by (rule nth_slice)
  then show ?thesis using assms(1) by (simp add: reshaped_state_def entry_def add.assoc)
qed



lemma laid_outD:
  assumes "laid_out sim v f" "i < length (IMs sim)" "r < length (IM_cells sim ! i)"
    "j < num_nodes (IMs sim ! i)"
  shows "v ! (state_offset sim i + r * num_nodes (IMs sim ! i) + j) = f i r j"
  using assms by (simp add: laid_out_def list_all_iff)

text \<open>
  C1, as stated: the per-group bounds computed before integration partition the flattened
  vector, with total length the sum of group size times species count. It fails: the
  bounds that \<open>set_cell_bounds\<close> computes count cells, not state entries. The one cell of
  \<open>sim_mod\<close> has two species: its bound is \<open>(0, 1)\<close>, while the flattened state has the
  two entries \<open>[1, 2]\<close>.
\<close>

theorem C1_cell_bounds_do_not_partition_state:
  "IM_bounds (set_cell_bounds sim_mod) = [(0, 1)]
   \<and> initial_state (set_cell_bounds sim_mod) = Inr [Fin 1, Fin 2]
   \<and> map (\<lambda>(a, b). a * b) (state_dims sim_mod) = [2]
   \<and> \<not> partitions (IM_bounds (set_cell_bounds sim_mod)) (map (\<lambda>(a, b). a * b) (state_dims sim_mod))"
  by code_simp

text \<open>
  C1, amended, for a simulation with one group of cell ids per internal model. The bounds
  that \<open>set_cell_bounds\<close> computes before integration are contiguous ranges from 0 whose
  widths are the group sizes: they partition the cells in group-major order (the columns
  of the working matrix of an interaction), with total length the number of grouped
  cells. The ranges of the flattened vectors are the ones \<open>deriv\<close> computes at every call:
  contiguous from 0, with widths group size times species count. The initial vector (when
  every grouped cell has an initial condition of the size of its group's model) and the
  derivative vector are laid out group-major in registration order, cells in
  group-membership order, species in node order, and \<open>deriv\<close> reads the state vector it
  is given under the same layout.
\<close>

theorem C1_layout_and_bounds:
  assumes wf: "length (IM_cells sim) = length (IMs sim)"
  shows "partitions (IM_bounds (set_cell_bounds sim)) (map length (IM_cells sim))
       \<and> partitions (zip (deriv_bounds (state_dims sim)) (tl (deriv_bounds (state_dims sim))))
            (map (\<lambda>(a, b). a * b) (state_dims sim))
       \<and> (IMs sim \<noteq> [] \<and> ICs_fit sim \<longrightarrow>
            (\<exists>y0. initial_state sim = Inr y0
               \<and> laid_out sim y0 (\<lambda>i r j. the (IC (cells sim ! (IM_cells sim ! i ! r))) ! j)))
       \<and> (deriv depth sim y t = Inr dy \<longrightarrow>
            laid_out sim dy (\<lambda>i r j. foldl nadd (Fin 0)
               (map (\<lambda>c. projr (resolve_contribution depth sim c (reshaped_state sim y) i) ! r)
                  (contributions_of sim i j)))
            \<and> (\<forall>i<length (IMs sim). \<forall>r<length (IM_cells sim ! i). \<forall>j<num_nodes (IMs sim ! i).
                  entry (reshaped_state sim y ! i) r j
                    = y ! (state_offset sim i + r * num_nodes (IMs sim ! i) + j)))"
proof (intro conjI impI)
  show "partitions (IM_bounds (set_cell_bounds sim)) (map length (IM_cells sim))"
    by (rule set_cell_bounds_partitions)
  show "partitions (zip (deriv_bounds (state_dims sim)) (tl (deriv_bounds (state_dims sim))))
            (map (\<lambda>(a, b). a * b) (state_dims sim))"
    by (rule deriv_bounds_partitions)
next
  assume "IMs sim \<noteq> [] \<and> ICs_fit sim"
  then show "\<exists>y0. initial_state sim = Inr y0
               \<and> laid_out sim y0 (\<lambda>i r j. the (IC (cells sim ! (IM_cells sim ! i ! r))) ! j)"
    using initial_state_laid_out[OF wf] by blast
next
  assume d: "deriv depth sim y t = Inr dy"
  note de = deriv_entries[OF wf d]
  show "laid_out sim dy (\<lambda>i r j. foldl nadd (Fin 0)
               (map (\<lambda>c. projr (resolve_contribution depth sim c (reshaped_state sim y) i) ! r)
                  (contributions_of sim i j)))"
    by (rule laid_outI) (use de in auto)
  show "\<forall>i<length (IMs sim). \<forall>r<length (IM_cells sim ! i). \<forall>j<num_nodes (IMs sim ! i).
                  entry (reshaped_state sim y ! i) r j
                    = y ! (state_offset sim i + r * num_nodes (IMs sim ! i) + j)"
    using reshaped_state_entry de(2) by blast
qed

theorem C1_layout_and_bounds_witness:
  "length (IM_cells sim_groups) = length (IMs sim_groups)
   \<and> IM_cells sim_groups = [[1, 0], [2]]
   \<and> IM_bounds (set_cell_bounds sim_groups) = [(0, 2), (2, 3)]
   \<and> zip (deriv_bounds (state_dims sim_groups)) (tl (deriv_bounds (state_dims sim_groups)))
        = [(0, 2), (2, 4)]
   \<and> initial_state sim_groups = Inr [Fin 0, Fin 1, Fin 1, Fin 2]
   \<and> laid_out sim_groups [Fin 0, Fin 1, Fin 1, Fin 2]
        (\<lambda>i r j. the (IC (cells sim_groups ! (IM_cells sim_groups ! i ! r))) ! j)
   \<and> deriv 3 sim_groups [Fin 0, Fin 1, Fin 1, Fin 2] 0
        = Inr [Fin (5 / 4), Fin (- 1), Fin (1403 / 148), Fin 0]
   \<and> laid_out sim_groups [Fin (5 / 4), Fin (- 1), Fin (1403 / 148), Fin 0]
        (\<lambda>i r j. foldl nadd (Fin 0)
               (map (\<lambda>c. projr (resolve_contribution 3 sim_groups c
                                  (reshaped_state sim_groups [Fin 0, Fin 1, Fin 1, Fin 2]) i) ! r)
                  (contributions_of sim_groups i j)))"
proof -
  have wf: "length (IM_cells sim_groups) = length (IMs sim_groups)" by code_simp
  have ne: "IMs sim_groups \<noteq> [] \<and> ICs_fit sim_groups" by code_simp
  have gr: "IM_cells sim_groups = [[1, 0], [2]]" by code_simp
  have b1: "IM_bounds (set_cell_bounds sim_groups) = [(0, 2), (2, 3)]" by code_simp
  have b2: "zip (deriv_bounds (state_dims sim_groups)) (tl (deriv_bounds (state_dims sim_groups)))
        = [(0, 2), (2, 4)]" by code_simp
  have y0: "initial_state sim_groups = Inr [Fin 0, Fin 1, Fin 1, Fin 2]" by code_simp
  have dy: "deriv 3 sim_groups [Fin 0, Fin 1, Fin 1, Fin 2] 0
        = Inr [Fin (5 / 4), Fin (- 1), Fin (1403 / 148), Fin 0]" by code_simp
  note th = C1_layout_and_bounds [OF wf, of 3 "[Fin 0, Fin 1, Fin 1, Fin 2]" 0
      "[Fin (5 / 4), Fin (- 1), Fin (1403 / 148), Fin 0]"]
  from th ne y0 have l0: "laid_out sim_groups [Fin 0, Fin 1, Fin 1, Fin 2]
        (\<lambda>i r j. the (IC (cells sim_groups ! (IM_cells sim_groups ! i ! r))) ! j)"
    by auto
  from th dy have l1: "laid_out sim_groups [Fin (5 / 4), Fin (- 1), Fin (1403 / 148), Fin 0]
        (\<lambda>i r j. foldl nadd (Fin 0)
               (map (\<lambda>c. projr (resolve_contribution 3 sim_groups c
                                  (reshaped_state sim_groups [Fin 0, Fin 1, Fin 1, Fin 2]) i) ! r)
                  (contributions_of sim_groups i j)))"
    by blast
  show ?thesis using wf gr b1 b2 y0 dy l0 l1 by simp
qed

subsection \<open>Interactions are matched by node name\<close>

text \<open>
  C10: a non-modifier interaction whose target is the node name \<open>N\<close> is a contribution
  to the species \<open>j\<close> of every group \<open>i\<close> whose model names its node \<open>j\<close> \<open>N\<close>, whichever
  group that is: whenever the derivative is returned, the interaction has been resolved
  for that group, to one value per cell, and every entry of the derivative of that
  species in that group is the sum of the resolved values of all its contributions, this
  one included.
\<close>

theorem C10_interaction_reaches_every_group:
  assumes wf: "length (IM_cells sim) = length (IMs sim)"
    and x: "x \<in> set (interactions sim)" "to_node x = Some (NodeName N)"
    and i: "i < length (IMs sim)"
    and j: "j < num_nodes (IMs sim ! i)" "name (nodes (IMs sim ! i) ! j) = N"
    and d: "deriv depth sim y t = Inr dy"
  shows "InteractionC x \<in> set (contributions_of sim i j)
       \<and> (\<exists>v. resolve_contribution depth sim (InteractionC x) (reshaped_state sim y) i = Inr v
               \<and> length v = length (IM_cells sim ! i))
       \<and> (\<forall>r<length (IM_cells sim ! i).
             dy ! (state_offset sim i + r * num_nodes (IMs sim ! i) + j) =
               foldl nadd (Fin 0)
                 (map (\<lambda>c. projr (resolve_contribution depth sim c (reshaped_state sim y) i) ! r)
                    (contributions_of sim i j)))"
proof -
  have nm: "get_node_names (IMs sim ! i) ! j = N"
    using j by (simp add: get_node_names_def num_nodes_def)
  have mem: "InteractionC x \<in> set (contributions_of sim i j)"
    using x by (simp add: contributions_of_def nm get_contributions_def)
  note de = deriv_entries[OF wf d]
  from de(3)[OF i j(1)] mem
  have "\<not> isl (resolve_contribution depth sim (InteractionC x) (reshaped_state sim y) i)"
    by (auto simp: list_all_iff)
  then obtain v where v: "resolve_contribution depth sim (InteractionC x) (reshaped_state sim y) i = Inr v"
    by (cases "resolve_contribution depth sim (InteractionC x) (reshaped_state sim y) i") auto
  have ext: "external x"
  proof (rule ccontr)
    assume "\<not> external x"
    then show False using v by (cases depth) (simp_all add: nth_err_def i)
  qed
  have "length v = length (IM_cells sim ! i)"
    using resolve_length[OF v] ext by simp
  with mem v de(4)[OF i _ j(1)] show ?thesis by blast
qed

theorem C10_interaction_reaches_every_group_witness:
  "length (IM_cells sim_groups) = length (IMs sim_groups)
   \<and> hd (interactions sim_groups) \<in> set (interactions sim_groups)
   \<and> to_node (hd (interactions sim_groups)) = Some (NodeName ''a'')
   \<and> map (\<lambda>im. map name (nodes im)) (IMs sim_groups) = [[''a''], [''a'', ''u'']]
   \<and> deriv 3 sim_groups [Fin 0, Fin 1, Fin 1, Fin 2] 0
        = Inr [Fin (5 / 4), Fin (- 1), Fin (1403 / 148), Fin 0]
   \<and> InteractionC (hd (interactions sim_groups)) \<in> set (contributions_of sim_groups 0 0)
   \<and> InteractionC (hd (interactions sim_groups)) \<in> set (contributions_of sim_groups 1 0)
   \<and> resolve_contribution 3 sim_groups (InteractionC (hd (interactions sim_groups)))
        (reshaped_state sim_groups [Fin 0, Fin 1, Fin 1, Fin 2]) 0 = Inr [Fin (5 / 4), Fin (- 1)]
   \<and> resolve_contribution 3 sim_groups (InteractionC (hd (interactions sim_groups)))
        (reshaped_state sim_groups [Fin 0, Fin 1, Fin 1, Fin 2]) 1 = Inr [Fin (- (1 / 4))]"
proof -
  have wf: "length (IM_cells sim_groups) = length (IMs sim_groups)" by code_simp
  have x1: "hd (interactions sim_groups) \<in> set (interactions sim_groups)"
  proof -
    have "interactions sim_groups \<noteq> []" by code_simp
    then show ?thesis by simp
  qed
  have x2: "to_node (hd (interactions sim_groups)) = Some (NodeName ''a'')" by code_simp
  have n: "length (IMs sim_groups) = 2" by code_simp
  have nm: "map (\<lambda>im. map name (nodes im)) (IMs sim_groups) = [[''a''], [''a'', ''u'']]"
    by code_simp
  have j0: "0 < num_nodes (IMs sim_groups ! 0)" "name (nodes (IMs sim_groups ! 0) ! 0) = ''a''"
    by code_simp+
  have j1: "0 < num_nodes (IMs sim_groups ! 1)" "name (nodes (IMs sim_groups ! 1) ! 0) = ''a''"
    by code_simp+
  have dy: "deriv 3 sim_groups [Fin 0, Fin 1, Fin 1, Fin 2] 0
        = Inr [Fin (5 / 4), Fin (- 1), Fin (1403 / 148), Fin 0]" by code_simp
  have r0: "resolve_contribution 3 sim_groups (InteractionC (hd (interactions sim_groups)))
        (reshaped_state sim_groups [Fin 0, Fin 1, Fin 1, Fin 2]) 0 = Inr [Fin (5 / 4), Fin (- 1)]"
    by code_simp
  have r1: "resolve_contribution 3 sim_groups (InteractionC (hd (interactions sim_groups)))
        (reshaped_state sim_groups [Fin 0, Fin 1, Fin 1, Fin 2]) 1 = Inr [Fin (- (1 / 4))]"
    by code_simp
  have m0: "InteractionC (hd (interactions sim_groups)) \<in> set (contributions_of sim_groups 0 0)"
    using C10_interaction_reaches_every_group [OF wf x1 x2 _ j0 dy] n by simp
  have m1: "InteractionC (hd (interactions sim_groups)) \<in> set (contributions_of sim_groups 1 0)"
    using C10_interaction_reaches_every_group [OF wf x1 x2 _ j1 dy] n by simp
  show ?thesis using wf x1 x2 nm dy m0 m1 r0 r1 by simp
qed

subsection \<open>The derivative function does not write into the state vector\<close>

lemma ub_refl: "unchanged_below n h h"
  by (simp add: unchanged_below_def)

lemma ub_trans: "unchanged_below n h h1 \<Longrightarrow> unchanged_below n h1 h2 \<Longrightarrow> unchanged_below n h h2"
  by (simp add: unchanged_below_def)

lemma ub_mono: "m \<le> n \<Longrightarrow> unchanged_below n h h' \<Longrightarrow> unchanged_below m h h'"
proof -
  assume mn: "m \<le> n" and u: "unchanged_below n h h'"
  have "take m h' = take m (take n h')" using mn by (simp add: min_def)
  also have "\<dots> = take m (take n h)" using u by (simp add: unchanged_below_def)
  also have "\<dots> = take m h" using mn by (simp add: min_def)
  finally show ?thesis using u by (simp add: unchanged_below_def)
qed

lemma ub_length: "unchanged_below n h h' \<Longrightarrow> length h \<le> length h'"
  by (simp add: unchanged_below_def)

lemma alloc_frame:
  assumes "alloc h xs = (r, h')"
  shows "unchanged_below (length h) h h'" and "base r = length h" and "length h' = Suc (length h)"
  using assms by (auto simp: alloc_def unchanged_below_def)

lemma write1_frame: "n \<le> base r \<Longrightarrow> unchanged_below n h (write1 h r vs)"
  by (simp add: write1_def unchanged_below_def)

lemma inplace_h_frame:
  "inplace_h f a b h = (res, h') \<Longrightarrow> n \<le> base a \<Longrightarrow> unchanged_below n h h'"
  by (auto simp: inplace_h_def write1_frame ub_refl split: sum.splits)

lemma apply_mods_h_frame:
  assumes res: "\<And>m h r h'. res m h = (r, h') \<Longrightarrow> unchanged_below (length h) h h'"
    and "apply_mods_h res ty ms acc h = (r, h')" and "n \<le> base acc" and "n \<le> length h"
  shows "unchanged_below n h h'"
  using assms(2,4)
proof (induction ms arbitrary: h)
  case Nil
  then show ?case by (simp add: ub_refl)
next
  case (Cons m ms)
  show ?case
  proof (cases "c_mod_type m = Some ty")
    case False
    then show ?thesis using Cons by simp
  next
    case True
    obtain r1 h1 where r1: "res m h = (r1, h1)" by (cases "res m h")
    have u1: "unchanged_below n h h1" using res[OF r1] Cons.prems(2) by (rule ub_mono[rotated])
    show ?thesis
    proof (cases r1)
      case (Inl e)
      then show ?thesis using Cons.prems(1) True r1 u1 by simp
    next
      case (Inr v)
      obtain r2 h2 where r2: "inplace_h nmul acc v h1 = (r2, h2)" by (cases "inplace_h nmul acc v h1")
      have u2: "unchanged_below n h1 h2" using inplace_h_frame[OF r2 assms(3)] .
      have u12: "unchanged_below n h h2" using u1 u2 by (rule ub_trans)
      show ?thesis
      proof (cases r2)
        case (Inl e)
        then show ?thesis using Cons.prems(1) True r1 Inr r2 u12 by simp
      next
        case (Inr u)
        have n2: "n \<le> length h2" using Cons.prems(2) ub_length[OF u12] by simp
        have "apply_mods_h res ty ms acc h2 = (r, h')"
          using Cons.prems(1) True r1 \<open>r1 = Inr v\<close> r2 Inr by simp
        from Cons.IH[OF this n2] u12 show ?thesis by (rule ub_trans[rotated])
      qed
    qed
  qed
qed


lemma resolve_h_frame:
  "resolve_h depth sim c ycurrent g h = (r, h') \<Longrightarrow> unchanged_below (length h) h h'"
proof (induction depth arbitrary: c h r h')
  case 0
  then show ?case by (simp add: ub_refl)
next
  case (Suc depth)
  let ?res = "\<lambda>m. resolve_h depth sim m ycurrent g"
  have res: "\<And>m h r h'. ?res m h = (r, h') \<Longrightarrow> unchanged_below (length h) h h'"
    by (rule Suc.IH)
  show ?case
  proof (cases "c_external c")
    case True
    let ?pre = "ebind (c_int_id c) (\<lambda>iid.
              ebind (get_modifiers sim iid None) (\<lambda>ext_mods.
              ebind (gather_xdata sim (c_from_node c) (map (read2 h) ycurrent)
                       [0..<length (IMs sim)] []) (\<lambda>xdata.
              ebind (nth_err (IM_cells sim) g) (\<lambda>group.
              ebind (ext_intern_mods ext_mods (map (read2 h) ycurrent) g
                       (replicate (length group) xdata)) (\<lambda>xcontrib.
              ebind (nth_err (IM_bounds sim) g) (\<lambda>bounds.
              ebind (apply_external (c_model c) xcontrib bounds) (\<lambda>ycontrib.
              Inr (ext_mods, ycontrib))))))))"
    show ?thesis
    proof (cases ?pre)
      case (Inl e)
      then show ?thesis using Suc.prems True by (simp add: ub_refl)
    next
      case (Inr p)
      obtain ext_mods yvals where p: "p = (ext_mods, yvals)" by (cases p)
      obtain yc h1 where a: "alloc h yvals = (yc, h1)" by (cases "alloc h yvals")
      obtain r2 h2 where m: "apply_mods_h ?res ''mult'' (map InteractionC ext_mods) yc h1 = (r2, h2)"
        by (cases "apply_mods_h ?res ''mult'' (map InteractionC ext_mods) yc h1")
      have h': "h' = h2"
        using Suc.prems True Inr p a m by (cases r2) simp_all
      note af = alloc_frame[OF a]
      have "unchanged_below (length h) h1 h2"
        by (rule apply_mods_h_frame[OF res m]) (simp_all add: af)
      with af(1) show ?thesis unfolding h' by (rule ub_trans)
    qed
  next
    case False
    let ?pre = "ebind (nth_err (IMs sim) g) (\<lambda>im.
              ebind (c_edge_id c) (\<lambda>eid.
              ebind (get_modifiers sim eid (Some g)) (\<lambda>ext_mods.
              ebind (get_node_id im (c_from_node c)) (\<lambda>from_id.
              ebind (nth_err ycurrent g) (\<lambda>yc.
              ebind (col_view yc from_id) (\<lambda>view.
              Inr (map EdgeC (IM_get_modifiers im eid) @ map InteractionC ext_mods, view)))))))"
    show ?thesis
    proof (cases ?pre)
      case (Inl e)
      then show ?thesis using Suc.prems False by (simp add: ub_refl)
    next
      case (Inr p)
      obtain mods view where p: "p = (mods, view)" by (cases p)
      obtain xc h1 where a1: "alloc h (read1 h view) = (xc, h1)" by (cases "alloc h (read1 h view)")
      obtain r2 h2 where m1: "apply_mods_h ?res ''intern'' mods xc h1 = (r2, h2)"
        by (cases "apply_mods_h ?res ''intern'' mods xc h1")
      note af1 = alloc_frame[OF a1]
      have u2: "unchanged_below (length h) h1 h2"
        by (rule apply_mods_h_frame[OF res m1]) (simp_all add: af1)
      have u02: "unchanged_below (length h) h h2" using af1(1) u2 by (rule ub_trans)
      show ?thesis
      proof (cases r2)
        case (Inl e)
        then show ?thesis using Suc.prems False Inr p a1 m1 u02 by simp
      next
        case r2: (Inr u)
        show ?thesis
        proof (cases "apply_term (c_model c) (read1 h2 xc)")
          case (Inl e)
          then show ?thesis using Suc.prems False Inr p a1 m1 r2 u02 by simp
        next
          case t: (Inr yvals)
          obtain yc h3 where a3: "alloc h2 yvals = (yc, h3)" by (cases "alloc h2 yvals")
          obtain r4 h4 where m4: "apply_mods_h ?res ''mult'' mods yc h3 = (r4, h4)"
            by (cases "apply_mods_h ?res ''mult'' mods yc h3")
          note af3 = alloc_frame[OF a3]
          have l2: "length h \<le> length h2" using ub_length[OF u02] .
          have u3: "unchanged_below (length h) h2 h3" using l2 af3(1) by (rule ub_mono)
          have u4: "unchanged_below (length h) h3 h4"
            by (rule apply_mods_h_frame[OF res m4]) (use l2 af3 in simp_all)
          have h': "h' = h4"
            using Suc.prems False Inr p a1 m1 r2 t a3 m4 by (cases r4) simp_all
          show ?thesis unfolding h' using u02 u3 u4 ub_trans by blast
        qed
      qed
    qed
  qed
qed

lemma col_view_base: "col_view m j = Inr v \<Longrightarrow> base v = base2 m"
  by (auto simp: col_view_def split: if_splits)

lemma accumulate_h_frame:
  assumes res: "\<And>m h r h'. res m h = (r, h') \<Longrightarrow> unchanged_below (length h) h h'"
    and "accumulate_h res cs j yp h = (r, h')" and "n \<le> base2 yp" and "n \<le> length h"
  shows "unchanged_below n h h'"
  using assms(2,4)
proof (induction cs arbitrary: h)
  case Nil
  then show ?case by (simp add: ub_refl)
next
  case (Cons c cs)
  obtain r1 h1 where r1: "res c h = (r1, h1)" by (cases "res c h")
  have u1: "unchanged_below n h h1" using res[OF r1] Cons.prems(2) by (rule ub_mono[rotated])
  show ?case
  proof (cases r1)
    case (Inl e)
    then show ?thesis using Cons.prems(1) r1 u1 by simp
  next
    case v: (Inr v)
    show ?thesis
    proof (cases "col_view yp j")
      case (Inl e)
      then show ?thesis using Cons.prems(1) r1 v u1 by simp
    next
      case col: (Inr col)
      obtain r2 h2 where r2: "inplace_h nadd col v h1 = (r2, h2)" by (cases "inplace_h nadd col v h1")
      have "n \<le> base col" using col_view_base[OF col] assms(3) by simp
      then have u2: "unchanged_below n h1 h2" using inplace_h_frame[OF r2] by simp
      have u12: "unchanged_below n h h2" using u1 u2 by (rule ub_trans)
      show ?thesis
      proof (cases r2)
        case (Inl e)
        then show ?thesis using Cons.prems(1) r1 v col r2 u12 by simp
      next
        case (Inr u)
        have n2: "n \<le> length h2" using Cons.prems(2) ub_length[OF u12] by simp
        have "accumulate_h res cs j yp h2 = (r, h')"
          using Cons.prems(1) r1 v col r2 Inr by simp
        from Cons.IH[OF this n2] u12 show ?thesis by (rule ub_trans[rotated])
      qed
    qed
  qed
qed

lemma deriv_species_h_frame:
  assumes res: "\<And>i m h r h'. res i m h = (r, h') \<Longrightarrow> unchanged_below (length h) h h'"
    and "deriv_species_h res sim i js yp h = (r, h')" and "n \<le> base2 yp" and "n \<le> length h"
  shows "unchanged_below n h h'"
  using assms(2,4)
proof (induction js arbitrary: h)
  case Nil
  then show ?case by (simp add: ub_refl)
next
  case (Cons j js)
  obtain r1 h1 where r1: "accumulate_h (res i) (contributions_of sim i j) j yp h = (r1, h1)"
    by (cases "accumulate_h (res i) (contributions_of sim i j) j yp h")
  have u1: "unchanged_below n h h1"
    by (rule accumulate_h_frame[OF res r1 assms(3) Cons.prems(2)])
  show ?case
  proof (cases r1)
    case (Inl e)
    then show ?thesis using Cons.prems(1) r1 u1 by simp
  next
    case (Inr u)
    have n1: "n \<le> length h1" using Cons.prems(2) ub_length[OF u1] by simp
    have "deriv_species_h res sim i js yp h1 = (r, h')" using Cons.prems(1) r1 Inr by simp
    from Cons.IH[OF this n1] u1 show ?thesis by (rule ub_trans[rotated])
  qed
qed

lemma deriv_groups_h_frame:
  assumes res: "\<And>i m h r h'. res i m h = (r, h') \<Longrightarrow> unchanged_below (length h) h h'"
    and "deriv_groups_h res sim idxs yprime h = (r, h')"
    and "\<And>i. i \<in> set idxs \<Longrightarrow> n \<le> base2 (yprime ! i)" and "n \<le> length h"
  shows "unchanged_below n h h'"
  using assms(2,3,4)
proof (induction idxs arbitrary: h)
  case Nil
  then show ?case by (simp add: ub_refl)
next
  case (Cons i idxs)
  obtain r1 h1 where r1: "deriv_species_h res sim i [0..<num_nodes (IMs sim ! i)] (yprime ! i) h = (r1, h1)"
    by (cases "deriv_species_h res sim i [0..<num_nodes (IMs sim ! i)] (yprime ! i) h")
  have u1: "unchanged_below n h h1"
  proof (rule deriv_species_h_frame[where res = res, OF _ r1 _ Cons.prems(3)])
    show "\<And>i m h r h'. res i m h = (r, h') \<Longrightarrow> unchanged_below (length h) h h'"
      by (rule res)
    show "n \<le> base2 (yprime ! i)" by (rule Cons.prems(2)) simp
  qed
  show ?case
  proof (cases r1)
    case (Inl e)
    then show ?thesis using Cons.prems(1) r1 u1 by simp
  next
    case (Inr u)
    have n1: "n \<le> length h1" using Cons.prems(3) ub_length[OF u1] by simp
    have "deriv_groups_h res sim idxs yprime h1 = (r, h')" using Cons.prems(1) r1 Inr by simp
    from Cons.IH[OF this _ n1] Cons.prems(2) u1 show ?thesis by (auto intro: ub_trans)
  qed
qed

lemma alloc_zeros_frame:
  "alloc_zeros ds h = (refs, h') \<Longrightarrow>
     unchanged_below (length h) h h' \<and> length refs = length ds
     \<and> (\<forall>k<length refs. length h \<le> base2 (refs ! k))"
proof (induction ds arbitrary: h refs h')
  case Nil
  then show ?case by (simp add: ub_refl)
next
  case (Cons d ds)
  let ?h1 = "h @ [replicate (fst d * snd d) (Fin 0)]"
  obtain refs1 h1 where z: "alloc_zeros ds ?h1 = (refs1, h1)" by (cases "alloc_zeros ds ?h1")
  from Cons.prems z have refs: "refs = \<lparr>base2 = length h, off = 0, rows = fst d, cols = snd d\<rparr> # refs1"
    and h': "h' = h1" by simp_all
  from Cons.IH[OF z] have ih: "unchanged_below (length ?h1) ?h1 h1" "length refs1 = length ds"
    "\<forall>k<length refs1. length ?h1 \<le> base2 (refs1 ! k)" by simp_all
  have "unchanged_below (length h) h ?h1" by (simp add: unchanged_below_def)
  moreover have "unchanged_below (length h) ?h1 h1" using ih(1) by (rule ub_mono[rotated]) simp
  ultimately have "unchanged_below (length h) h h1" by (rule ub_trans)
  moreover have "\<forall>k<length refs. length h \<le> base2 (refs ! k)"
    using ih(3) by (auto simp: refs nth_Cons split: nat.splits)
  ultimately show ?case using ih(2) by (simp add: refs h')
qed

lemma deriv_h_frame:
  "deriv_h depth sim yaddr t h = (r, h') \<Longrightarrow> unchanged_below (length h) h h'"
proof -
  assume d: "deriv_h depth sim yaddr t h = (r, h')"
  let ?pre = "ebind (emap (\<lambda>i. ebind (nth_err (IM_cells sim) i) (\<lambda>g. Inr (length g)))
                    [0..<length (IMs sim)]) (\<lambda>IM_ncells.
           let IM_nspecies = map num_nodes (IMs sim);
               IM_dims = zip IM_ncells IM_nspecies;
               bounds = deriv_bounds IM_dims
           in ebind (emap (\<lambda>i. if length (slice (bounds ! i) (bounds ! (i + 1)) (h ! yaddr))
                                      = fst (IM_dims ! i) * snd (IM_dims ! i)
                                 then Inr \<lparr>base2 = yaddr, off = bounds ! i,
                                          rows = fst (IM_dims ! i), cols = snd (IM_dims ! i)\<rparr>
                                 else Inl ValueError)
                       [0..<length IM_dims]) (\<lambda>ycurrent.
              Inr (IM_dims, ycurrent)))"
  show ?thesis
  proof (cases ?pre)
    case (Inl e)
    then show ?thesis using d by (simp add: deriv_h_def ub_refl)
  next
    case (Inr p)
    obtain IM_dims ycurrent where p: "p = (IM_dims, ycurrent)" by (cases p)
    have ld: "length IM_dims = length (IMs sim)"
      using Inr p by (auto simp: ebind_def Let_def split: sum.splits dest!: emap_InrD)
    obtain yprime h1 where z: "alloc_zeros IM_dims h = (yprime, h1)" by (cases "alloc_zeros IM_dims h")
    note zf = alloc_zeros_frame[OF z]
    obtain r2 h2 where g: "deriv_groups_h (\<lambda>i c. resolve_h depth sim c ycurrent i) sim
                       [0..<length (IMs sim)] yprime h1 = (r2, h2)"
      by (cases "deriv_groups_h (\<lambda>i c. resolve_h depth sim c ycurrent i) sim
                       [0..<length (IMs sim)] yprime h1")
    have u2: "unchanged_below (length h) h1 h2"
      by (rule deriv_groups_h_frame[OF _ g]) (use zf ld resolve_h_frame in \<open>auto dest: ub_length\<close>)
    have u02: "unchanged_below (length h) h h2" using zf u2 by (auto intro: ub_trans)
    show ?thesis
    proof (cases r2)
      case (Inl e)
      then show ?thesis using d Inr p z g u02 by (simp add: deriv_h_def)
    next
      case r2: (Inr u)
      show ?thesis
      proof (cases "reduce_append (map (\<lambda>yp. dat (read2 h2 yp)) yprime)")
        case (Inl e)
        then show ?thesis using d Inr p z g r2 u02 by (simp add: deriv_h_def)
      next
        case f: (Inr flat)
        obtain r3 h3 where a: "alloc h2 flat = (r3, h3)" by (cases "alloc h2 flat")
        have "unchanged_below (length h) h2 h3"
          using alloc_frame(1)[OF a] ub_length[OF u02] by (auto intro: ub_mono)
        moreover have "h' = h3" using d Inr p z g r2 f a by (simp add: deriv_h_def)
        ultimately show ?thesis using u02 by (auto intro: ub_trans)
      qed
    qed
  qed
qed

text \<open>
  What the copy is for: multiplying in place through a column view writes into the
  buffer the view was taken from.
\<close>

lemma inplace_through_view_writes_buffer:
  "col_view \<lparr>base2 = 0, off = 0, rows = 1, cols = 2\<rparr> 0 = Inr \<lparr>base = 0, idx = [0]\<rparr>
   \<and> inplace_h nmul \<lparr>base = 0, idx = [0]\<rparr> \<lparr>base = 1, idx = [0]\<rparr> [[Fin 1, Fin 2], [Fin 3]]
       = (Inr (), [[Fin 3, Fin 2], [Fin 3]])"
  by code_simp

text \<open>
  C9: the state vector is the buffer \<open>yaddr\<close> of the heap. Whatever the derivative
  function returns or raises, that buffer, and every other array that existed before the
  call, holds afterwards what it held before: the heap has only grown. The same holds for
  every call of the resolver, whatever views the per-group state arrays are: the source
  column is copied into a new buffer before the in-place multiplications, and every
  in-place update of the resolver and of the accumulation writes into a buffer that was
  allocated during the call.
\<close>

theorem C9_deriv_leaves_state_unchanged:
  assumes "yaddr < length h"
  shows "snd (deriv_h depth sim yaddr t h) ! yaddr = h ! yaddr
       \<and> take (length h) (snd (deriv_h depth sim yaddr t h)) = h
       \<and> take (length h) (snd (resolve_h depth sim c ycurrent g h)) = h"
proof -
  have d: "unchanged_below (length h) h (snd (deriv_h depth sim yaddr t h))"
    by (rule deriv_h_frame[of depth sim yaddr t h "fst (deriv_h depth sim yaddr t h)"]) simp
  have r: "unchanged_below (length h) h (snd (resolve_h depth sim c ycurrent g h))"
    by (rule resolve_h_frame[of depth sim c ycurrent g h "fst (resolve_h depth sim c ycurrent g h)"])
      simp
  have t: "take (length h) (snd (deriv_h depth sim yaddr t h)) = h"
    using d by (simp add: unchanged_below_def)
  have "snd (deriv_h depth sim yaddr t h) ! yaddr
          = take (length h) (snd (deriv_h depth sim yaddr t h)) ! yaddr"
    using assms by simp
  then show ?thesis using t r by (simp add: unchanged_below_def)
qed

theorem C9_deriv_leaves_state_unchanged_witness:
  "(1::nat) < length [[Fin 7], [Fin 1, Fin 2]]
   \<and> deriv_h 3 sim_mod 1 0 [[Fin 7], [Fin 1, Fin 2]]
       = (Inr \<lparr>base = 9, idx = [0, 1]\<rparr>,
          [[Fin 7], [Fin 1, Fin 2], [Fin (360 / 37), Fin 0], [Fin 6], [Fin 2], [Fin 6],
           [Fin (360 / 37)], [Fin 2], [Fin 10], [Fin (360 / 37), Fin 0]])
   \<and> deriv 3 sim_mod [Fin 1, Fin 2] 0 = Inr [Fin (360 / 37), Fin 0]
   \<and> snd (deriv_h 3 sim_mod 1 0 [[Fin 7], [Fin 1, Fin 2]]) ! 1 = [Fin 1, Fin 2]
   \<and> take 2 (snd (deriv_h 3 sim_mod 1 0 [[Fin 7], [Fin 1, Fin 2]])) = [[Fin 7], [Fin 1, Fin 2]]"
proof -
  have a: "deriv_h 3 sim_mod 1 0 [[Fin 7], [Fin 1, Fin 2]]
       = (Inr \<lparr>base = 9, idx = [0, 1]\<rparr>,
          [[Fin 7], [Fin 1, Fin 2], [Fin (360 / 37), Fin 0], [Fin 6], [Fin 2], [Fin 6],
           [Fin (360 / 37)], [Fin 2], [Fin 10], [Fin (360 / 37), Fin 0]])"
    by code_simp
  have c: "deriv 3 sim_mod [Fin 1, Fin 2] 0 = Inr [Fin (360 / 37), Fin 0]"
    by code_simp
  have l: "(1::nat) < length [[Fin 7], [Fin 1, Fin 2]]" by simp
  have "snd (deriv_h 3 sim_mod 1 0 [[Fin 7], [Fin 1, Fin 2]]) ! 1 = [[Fin 7], [Fin 1, Fin 2]] ! 1
       \<and> take (length [[Fin 7], [Fin 1, Fin 2]]) (snd (deriv_h 3 sim_mod 1 0 [[Fin 7], [Fin 1, Fin 2]]))
           = [[Fin 7], [Fin 1, Fin 2]]"
    using C9_deriv_leaves_state_unchanged [OF l, of 3 sim_mod 0] by blast
  then show ?thesis using a c by simp
qed

subsection \<open>The derivative on the heap returns the values of the derivative on values\<close>

text \<open>
  The resolver and the derivative on the heap are the ones on array values with the
  allocations and the writes made explicit: run from a heap whose buffer \<open>yaddr\<close> holds the
  state vector, they raise the same exception or return an array that holds the same
  numbers. The proof follows the loops of the source: a buffer returned by an
  allocation is written only through the array that owns it, the views of the state are
  only read, and a column written through a view of a zero matrix is \<open>set_column\<close>.
\<close>

lemma only_changedD:
  "only_changed b h h' \<Longrightarrow> a < length h \<Longrightarrow> a \<noteq> b \<Longrightarrow> h' ! a = h ! a"
  by (auto simp: only_changed_def list_all_iff)

lemma only_changed_length: "only_changed b h h' \<Longrightarrow> length h \<le> length h'"
  by (simp add: only_changed_def)

lemma only_changed_refl: "only_changed b h h"
  by (simp add: only_changed_def list_all_iff)

lemma only_changedI:
  assumes "length h \<le> length h'"
    and "\<And>a. a < length h \<Longrightarrow> a \<noteq> b \<Longrightarrow> h' ! a = h ! a"
  shows "only_changed b h h'"
proof -
  have "a = b \<or> h' ! a = h ! a" if "a < length h" for a
    using assms(2)[OF that] by (cases "a = b") simp_all
  then show ?thesis using assms(1) by (simp add: only_changed_def list_all_iff)
qed

lemma only_changed_trans:
  assumes "only_changed b h h1" "only_changed b h1 h2"
  shows "only_changed b h h2"
proof (rule only_changedI)
  show "length h \<le> length h2"
    using assms only_changed_length by (meson order_trans)
next
  fix a assume a: "a < length h" "a \<noteq> b"
  then have "a < length h1" using only_changed_length[OF assms(1)] by simp
  then have "h2 ! a = h1 ! a" using only_changedD[OF assms(2)] a by simp
  then show "h2 ! a = h ! a" using only_changedD[OF assms(1)] a by simp
qed

lemma ub_only_changed:
  assumes "unchanged_below (length h) h h'"
  shows "only_changed b h h'"
proof -
  have "h' ! a = h ! a" if "a < length h" for a
  proof -
    have "h' ! a = take (length h) h' ! a" using that by simp
    also have "\<dots> = h ! a" using assms by (simp add: unchanged_below_def)
    finally show ?thesis .
  qed
  then show ?thesis using assms by (simp add: only_changed_def unchanged_below_def list_all_iff)
qed

lemma ub_nth: "unchanged_below (length h) h h' \<Longrightarrow> a < length h \<Longrightarrow> h' ! a = h ! a"
  using ub_only_changed[of h h' "length h"] only_changedD[of "length h" h h' a] by simp

lemma read1_owns: "owns h r \<Longrightarrow> read1 h r = h ! base r"
  by (simp add: owns_def read1_def map_nth)

lemma fold_update_zip:
  "length vs = n \<Longrightarrow> k + n \<le> length b \<Longrightarrow>
     fold (\<lambda>(i, v) b. b[i := v]) (zip [k..<k + n] vs) b = take k b @ vs @ drop (k + n) b"
proof (induction vs arbitrary: k n b)
  case Nil
  then show ?case by simp
next
  case (Cons v vs)
  then obtain n' where n: "n = Suc n'" by (cases n) auto
  have z: "zip [k..<k + n] (v # vs) = (k, v) # zip [Suc k..<Suc k + n'] vs"
    using n by (simp add: upt_conv_Cons)
  have "fold (\<lambda>(i, v) b. b[i := v]) (zip [Suc k..<Suc k + n'] vs) (b[k := v])
          = take (Suc k) (b[k := v]) @ vs @ drop (Suc k + n') (b[k := v])"
    by (rule Cons.IH) (use Cons.prems n in simp_all)
  moreover have "take (Suc k) (b[k := v]) = take k b @ [v]"
    using Cons.prems n by (simp add: take_Suc_conv_app_nth)
  moreover have "drop (Suc k + n') (b[k := v]) = drop (k + n) b"
    using n by simp
  ultimately show ?case by (simp add: z)
qed

lemma write1_owns:
  assumes "owns h r" "length vs = length (h ! base r)"
  shows "write1 h r vs = h[base r := vs]"
proof -
  have "fold (\<lambda>(i, v) b. b[i := v]) (zip [0..<0 + length vs] vs) (h ! base r)
          = take 0 (h ! base r) @ vs @ drop (0 + length vs) (h ! base r)"
    by (rule fold_update_zip) (use assms in simp_all)
  then show ?thesis using assms by (simp add: write1_def owns_def)
qed

lemma inplace_h_owns:
  assumes "owns h a" and "inplace_h f a b h = (res, h')"
  shows "case res of
           Inl e \<Rightarrow> inplace f (h ! base a) (read1 h b) = Inl e \<and> h' = h
         | Inr u \<Rightarrow> inplace f (h ! base a) (read1 h b) = Inr (h' ! base a)
                     \<and> h' = h[base a := h' ! base a] \<and> length (h' ! base a) = length (h ! base a)"
proof (cases "inplace f (h ! base a) (read1 h b)")
  case (Inl e)
  then show ?thesis using assms by (auto simp: inplace_h_def read1_owns)
next
  case (Inr vs)
  have l: "length vs = length (h ! base a)" using inplace_length[OF Inr] .
  have "h' = h[base a := vs]" "res = Inr ()"
    using assms Inr write1_owns[OF assms(1) l] by (auto simp: inplace_h_def read1_owns)
  then show ?thesis using Inr l assms(1) by (simp add: owns_def)
qed

lemma read2_append: "base2 m < length h \<Longrightarrow> read2 (h @ ext) m = read2 h m"
  by (simp add: read2_def nth_append)

lemma read2_same: "h' ! base2 m = h ! base2 m \<Longrightarrow> read2 h' m = read2 h m"
  by (simp add: read2_def)

lemma views_same:
  assumes "list_all (\<lambda>m. base2 m < L) ycur" and "\<And>a. a < L \<Longrightarrow> h' ! a = h ! a"
  shows "map (read2 h') ycur = map (read2 h) ycur"
  using assms by (auto simp: list_all_iff intro!: read2_same)

lemma only_changed_update: "only_changed b h (h[b := vs])"
  by (rule only_changedI) simp_all

lemma owns_same: "owns h r \<Longrightarrow> length h \<le> length h' \<Longrightarrow> h' ! base r = h ! base r \<Longrightarrow> owns h' r"
  by (simp add: owns_def)

lemma owns_update: "owns h r \<Longrightarrow> length vs = length (h ! base r) \<Longrightarrow> owns (h[base r := vs]) r"
  by (simp add: owns_def)

text \<open>
  The modifier loop: when the recursive call on the heap returns what the recursive call
  on values returns, in a new buffer that it owns, the loop leaves in the buffer of
  \<open>acc\<close> what the loop on values returns.
\<close>

lemma apply_mods_h_refines:
  assumes fr0: "\<forall>m h1 r h2. res m h1 = (r, h2) \<longrightarrow> unchanged_below (length h1) h1 h2"
    and rs0: "\<forall>m h1 r h2. L \<le> length h1 \<and> map (read2 h1) ycur = Y \<and> res m h1 = (r, h2) \<longrightarrow>
               (case r of Inl e \<Rightarrow> pure m = Inl e
                | Inr v \<Rightarrow> pure m = Inr (h2 ! base v) \<and> length h1 \<le> base v \<and> owns h2 v)"
    and vo: "list_all (\<lambda>m. base2 m < L) ycur"
    and La: "L \<le> base acc"
    and ow: "owns h1 acc"
    and Y: "map (read2 h1) ycur = Y"
    and run: "apply_mods_h res ty ms acc h1 = (r, h2)"
  shows "(case r of Inl e \<Rightarrow> apply_mods pure ty ms (h1 ! base acc) = Inl e
          | Inr u \<Rightarrow> apply_mods pure ty ms (h1 ! base acc) = Inr (h2 ! base acc))
         \<and> owns h2 acc \<and> map (read2 h2) ycur = Y \<and> only_changed (base acc) h1 h2"
  using ow Y run
proof (induction ms arbitrary: h1)
  case Nil
  then show ?case by (auto simp: only_changed_refl)
next
  case (Cons m rest)
  have fr: "res m h1 = (r, h2) \<Longrightarrow> unchanged_below (length h1) h1 h2" for m h1 r h2
    using fr0 by blast
  have rs: "L \<le> length h1 \<Longrightarrow> map (read2 h1) ycur = Y \<Longrightarrow> res m h1 = (r, h2) \<Longrightarrow>
               (case r of Inl e \<Rightarrow> pure m = Inl e
                | Inr v \<Rightarrow> pure m = Inr (h2 ! base v) \<and> length h1 \<le> base v \<and> owns h2 v)"
    for m h1 r h2
    using rs0 by blast
  show ?case
  proof (cases "c_mod_type m = Some ty")
    case False
    then have "apply_mods_h res ty rest acc h1 = (r, h2)" using Cons.prems(3) by simp
    from Cons.IH[OF Cons.prems(1,2) this] False show ?thesis by (cases r) simp_all
  next
    case True
    obtain r1 h1' where R: "res m h1 = (r1, h1')" by (cases "res m h1")
    have ub: "unchanged_below (length h1) h1 h1'" using fr[OF R] .
    have bl: "base acc < length h1" using Cons.prems(1) by (simp add: owns_def)
    have Ll: "L \<le> length h1" using La bl by simp
    have len1: "length h1 \<le> length h1'" using ub by (simp add: unchanged_below_def)
    have same1: "h1' ! a = h1 ! a" if "a < length h1" for a using ub_nth[OF ub that] .
    have ow1: "owns h1' acc" using owns_same[OF Cons.prems(1) len1 same1[OF bl]] .
    have Y1: "map (read2 h1') ycur = Y"
      using views_same[OF vo, of h1' h1] same1 Ll Cons.prems(2) by simp
    have oc1: "only_changed (base acc) h1 h1'" using ub_only_changed[OF ub] .
    note spec = rs[OF Ll Cons.prems(2) R]
    show ?thesis
    proof (cases r1)
      case (Inl e)
      then have "r = Inl e" "h2 = h1'" using Cons.prems(3) True R by simp_all
      moreover have "pure m = Inl e" using spec Inl by simp
      ultimately show ?thesis using True ow1 Y1 oc1 by simp
    next
      case (Inr v)
      then have pv: "pure m = Inr (h1' ! base v)" and vb: "length h1 \<le> base v" and ov: "owns h1' v"
        using spec by simp_all
      have rv: "read1 h1' v = h1' ! base v" using read1_owns[OF ov] .
      obtain r2 h2' where I: "inplace_h nmul acc v h1' = (r2, h2')"
        by (cases "inplace_h nmul acc v h1'")
      note ispec = inplace_h_owns[OF ow1 I]
      show ?thesis
      proof (cases r2)
        case (Inl e)
        then have ie: "inplace nmul (h1' ! base acc) (read1 h1' v) = Inl e" and hh: "h2' = h1'"
          using ispec by simp_all
        have "r = Inl e" "h2 = h1'" using Cons.prems(3) True R Inr I Inl hh by simp_all
        moreover have "inplace nmul (h1 ! base acc) (h1' ! base v) = Inl e"
          using ie rv same1[OF bl] by simp
        ultimately show ?thesis using True ow1 Y1 oc1 pv by simp
      next
        case (Inr u)
        then have ip: "inplace nmul (h1 ! base acc) (h1' ! base v) = Inr (h2' ! base acc)"
          and upd: "h2' = h1'[base acc := h2' ! base acc]"
          and ln: "length (h2' ! base acc) = length (h1' ! base acc)"
          using ispec rv same1[OF bl] by simp_all
        have ow2: "owns h2' acc" using owns_update[OF ow1 ln] upd by simp
        have "map (read2 h2') ycur = map (read2 h1') ycur"
        proof (rule views_same[OF vo])
          fix a assume "a < L"
          then have "a \<noteq> base acc" using La by simp
          then show "h2' ! a = h1' ! a" by (subst upd) simp
        qed
        then have Y2: "map (read2 h2') ycur = Y" using Y1 by simp
        have run': "apply_mods_h res ty rest acc h2' = (r, h2)"
          using Cons.prems(3) True R \<open>r1 = Inr v\<close> I Inr by simp
        note ih = Cons.IH[OF ow2 Y2 run']
        have oc2: "only_changed (base acc) h1' h2'"
          using only_changed_update[of "base acc" h1' "h2' ! base acc"] upd by simp
        have oc: "only_changed (base acc) h1 h2"
          using only_changed_trans[OF only_changed_trans[OF oc1 oc2]] ih by simp
        have "apply_mods pure ty (m # rest) (h1 ! base acc)
                = apply_mods pure ty rest (h2' ! base acc)"
          using True pv ip by simp
        then show ?thesis using ih oc by (cases r) simp_all
      qed
    qed
  qed
qed

lemma alloc_owns:
  assumes "alloc h xs = (a, h1)"
  shows "h1 = h @ [xs]" "base a = length h" "owns h1 a" "h1 ! base a = xs"
  using assms by (auto simp: alloc_def owns_def)

lemma col_view_column_err: "col_view m j = Inl e \<Longrightarrow> column (read2 h m) j = Inl e"
  by (auto simp: col_view_def column_def read2_def split: if_splits)

lemma col_index: "r < n \<Longrightarrow> j < c \<Longrightarrow> r * c + j < n * (c::nat)"
proof -
  assume a: "r < n" "j < c"
  then have "r * c + j < Suc r * c" by simp
  also have "\<dots> \<le> n * c" using a by (intro mult_le_mono1) simp
  finally show ?thesis .
qed

lemma col_view_column:
  assumes "col_view m j = Inr v"
  shows "column (read2 h m) j = Inr (read1 h v)"
proof -
  have j: "j < cols m" and v: "v = \<lparr>base = base2 m, idx = map (\<lambda>r. off m + r * cols m + j) [0..<rows m]\<rparr>"
    using assms by (auto simp: col_view_def split: if_splits)
  have "entry (read2 h m) r j = h ! base2 m ! (off m + r * cols m + j)" if "r < rows m" for r
    using col_index[OF that j] by (simp add: entry_def read2_def add.assoc)
  then show ?thesis using j by (simp add: column_def v read1_def read2_def)
qed

lemma nth_err_map:
  "nth_err (map f xs) g = (case nth_err xs g of Inl e \<Rightarrow> Inl e | Inr x \<Rightarrow> Inr (f x))"
  by (simp add: nth_err_def)

lemma resolve_ext_unfold:
  assumes "c_external c"
  shows "resolve_contribution (Suc d) sim c Y g =
     (case ebind (c_int_id c) (\<lambda>iid.
              ebind (get_modifiers sim iid None) (\<lambda>ext_mods.
              ebind (gather_xdata sim (c_from_node c) Y [0..<length (IMs sim)] []) (\<lambda>xdata.
              ebind (nth_err (IM_cells sim) g) (\<lambda>group.
              ebind (ext_intern_mods ext_mods Y g (replicate (length group) xdata)) (\<lambda>xcontrib.
              ebind (nth_err (IM_bounds sim) g) (\<lambda>bounds.
              ebind (apply_external (c_model c) xcontrib bounds) (\<lambda>ycontrib.
              Inr (ext_mods, ycontrib)))))))) of
        Inl e \<Rightarrow> Inl e
      | Inr (ext_mods, yvals) \<Rightarrow>
          apply_mods (\<lambda>m. resolve_contribution d sim m Y g) ''mult''
            (map InteractionC ext_mods) yvals)"
  using assms by (simp add: ebind_def split: sum.splits)

lemma resolve_int_unfold:
  assumes "\<not> c_external c"
  shows "resolve_contribution (Suc d) sim c (map (read2 h) ycur) g =
     (case ebind (nth_err (IMs sim) g) (\<lambda>im.
              ebind (c_edge_id c) (\<lambda>eid.
              ebind (get_modifiers sim eid (Some g)) (\<lambda>ext_mods.
              ebind (get_node_id im (c_from_node c)) (\<lambda>from_id.
              ebind (nth_err ycur g) (\<lambda>yc.
              ebind (col_view yc from_id) (\<lambda>view.
              Inr (map EdgeC (IM_get_modifiers im eid) @ map InteractionC ext_mods, view))))))) of
        Inl e \<Rightarrow> Inl e
      | Inr (mods, view) \<Rightarrow>
          ebind (apply_mods (\<lambda>m. resolve_contribution d sim m (map (read2 h) ycur) g) ''intern''
                   mods (read1 h view)) (\<lambda>xcontrib'.
          ebind (apply_term (c_model c) xcontrib') (\<lambda>ycontrib.
          apply_mods (\<lambda>m. resolve_contribution d sim m (map (read2 h) ycur) g) ''mult''
            mods ycontrib)))"
proof -
  have cv: "column (read2 h yc) j =
              (case col_view yc j of Inl e \<Rightarrow> Inl e | Inr v \<Rightarrow> Inr (read1 h v))" for yc j
    using col_view_column[of yc j _ h] col_view_column_err[of yc j _ h]
    by (cases "col_view yc j") simp_all
  show ?thesis
    using assms by (simp add: ebind_def nth_err_map cv Let_def split: sum.splits)
qed

lemma views_append:
  "list_all (\<lambda>m. base2 m < L) ycur \<Longrightarrow> L \<le> length h \<Longrightarrow>
     map (read2 (h @ ext)) ycur = map (read2 h) ycur"
  by (auto simp: list_all_iff intro!: read2_append)

text \<open>The resolver, by induction on the number of stack frames.\<close>

lemma resolve_h_refines:
  assumes vo: "list_all (\<lambda>m. base2 m < L) ycur"
  shows "L \<le> length h \<Longrightarrow> resolve_h d sim c ycur g h = (r, h') \<Longrightarrow>
         (case r of
            Inl e \<Rightarrow> resolve_contribution d sim c (map (read2 h) ycur) g = Inl e
          | Inr v \<Rightarrow> resolve_contribution d sim c (map (read2 h) ycur) g = Inr (h' ! base v)
                      \<and> length h \<le> base v \<and> owns h' v)"
proof (induction d arbitrary: c h r h')
  case 0
  then show ?case by auto
next
  case (Suc d)
  let ?Y = "map (read2 h) ycur"
  let ?res = "\<lambda>m. resolve_h d sim m ycur g"
  let ?pure = "\<lambda>m. resolve_contribution d sim m ?Y g"
  have fr: "\<forall>m h1 r h2. ?res m h1 = (r, h2) \<longrightarrow> unchanged_below (length h1) h1 h2"
    using resolve_h_frame by blast
  have rs: "\<forall>m h1 r h2. L \<le> length h1 \<and> map (read2 h1) ycur = ?Y \<and> ?res m h1 = (r, h2) \<longrightarrow>
               (case r of Inl e \<Rightarrow> ?pure m = Inl e
                | Inr v \<Rightarrow> ?pure m = Inr (h2 ! base v) \<and> length h1 \<le> base v \<and> owns h2 v)"
  proof (intro allI impI, elim conjE)
    fix m h1 r h2
    assume a: "L \<le> length h1" "map (read2 h1) ycur = ?Y" "?res m h1 = (r, h2)"
    show "(case r of Inl e \<Rightarrow> ?pure m = Inl e
                | Inr v \<Rightarrow> ?pure m = Inr (h2 ! base v) \<and> length h1 \<le> base v \<and> owns h2 v)"
      using Suc.IH[OF a(1) a(3)] unfolding a(2) .
  qed
  note am = apply_mods_h_refines[where res = ?res and pure = ?pure and L = L and ycur = ycur
                                   and Y = ?Y, OF fr rs vo]
  show ?case
  proof (cases "c_external c")
    case True
    let ?pre = "ebind (c_int_id c) (\<lambda>iid.
              ebind (get_modifiers sim iid None) (\<lambda>ext_mods.
              ebind (gather_xdata sim (c_from_node c) ?Y [0..<length (IMs sim)] []) (\<lambda>xdata.
              ebind (nth_err (IM_cells sim) g) (\<lambda>group.
              ebind (ext_intern_mods ext_mods ?Y g (replicate (length group) xdata)) (\<lambda>xcontrib.
              ebind (nth_err (IM_bounds sim) g) (\<lambda>bounds.
              ebind (apply_external (c_model c) xcontrib bounds) (\<lambda>ycontrib.
              Inr (ext_mods, ycontrib))))))))"
    note pu = resolve_ext_unfold[OF True, of d sim ?Y g]
    show ?thesis
    proof (cases ?pre)
      case (Inl e)
      then have "r = Inl e" using Suc.prems(2) True by simp
      then show ?thesis using pu Inl by simp
    next
      case (Inr p)
      obtain ext_mods yvals where p: "p = (ext_mods, yvals)" by (cases p)
      obtain yc h1 where al: "alloc h yvals = (yc, h1)" by (cases "alloc h yvals")
      note ao = alloc_owns[OF al]
      obtain r1 h2 where run: "apply_mods_h ?res ''mult'' (map InteractionC ext_mods) yc h1 = (r1, h2)"
        by (cases "apply_mods_h ?res ''mult'' (map InteractionC ext_mods) yc h1")
      have Y1: "map (read2 h1) ycur = ?Y" using views_append[OF vo Suc.prems(1)] ao(1) by simp
      have Lb: "L \<le> base yc" using ao(2) Suc.prems(1) by simp
      note c = am[OF Lb ao(3) Y1 run]
      have res: "(r, h') = (case r1 of Inl e \<Rightarrow> (Inl e, h2) | Inr u \<Rightarrow> (Inr yc, h2))"
        using Suc.prems(2) True Inr p al run by (simp split: sum.splits)
      have pu': "resolve_contribution (Suc d) sim c ?Y g
                   = apply_mods ?pure ''mult'' (map InteractionC ext_mods) (h1 ! base yc)"
        using pu Inr p ao(4) by simp
      show ?thesis
      proof (cases r1)
        case (Inl e)
        then show ?thesis using res c pu' by simp
      next
        case (Inr u)
        then show ?thesis using res c pu' ao(2) by simp
      qed
    qed
  next
    case False
    let ?pre = "ebind (nth_err (IMs sim) g) (\<lambda>im.
              ebind (c_edge_id c) (\<lambda>eid.
              ebind (get_modifiers sim eid (Some g)) (\<lambda>ext_mods.
              ebind (get_node_id im (c_from_node c)) (\<lambda>from_id.
              ebind (nth_err ycur g) (\<lambda>yc.
              ebind (col_view yc from_id) (\<lambda>view.
              Inr (map EdgeC (IM_get_modifiers im eid) @ map InteractionC ext_mods, view)))))))"
    note pu = resolve_int_unfold[OF False, of d sim h ycur g]
    show ?thesis
    proof (cases ?pre)
      case (Inl e)
      then have "r = Inl e" using Suc.prems(2) False by simp
      then show ?thesis using pu Inl by simp
    next
      case (Inr p)
      obtain mods view where p: "p = (mods, view)" by (cases p)
      obtain xc h1 where al: "alloc h (read1 h view) = (xc, h1)" by (cases "alloc h (read1 h view)")
      note ao = alloc_owns[OF al]
      obtain r1 h2 where run1: "apply_mods_h ?res ''intern'' mods xc h1 = (r1, h2)"
        by (cases "apply_mods_h ?res ''intern'' mods xc h1")
      have Y1: "map (read2 h1) ycur = ?Y" using views_append[OF vo Suc.prems(1)] ao(1) by simp
      have Lb: "L \<le> base xc" using ao(2) Suc.prems(1) by simp
      note c1 = am[OF Lb ao(3) Y1 run1]
      have pu1: "resolve_contribution (Suc d) sim c ?Y g
                   = ebind (apply_mods ?pure ''intern'' mods (h1 ! base xc)) (\<lambda>xcontrib'.
                     ebind (apply_term (c_model c) xcontrib') (\<lambda>ycontrib.
                     apply_mods ?pure ''mult'' mods ycontrib))"
        using pu Inr p ao(4) by simp
      have step1: "resolve_h (Suc d) sim c ycur g h =
          (case r1 of Inl e \<Rightarrow> (Inl e, h2)
           | Inr u \<Rightarrow>
               (case apply_term (c_model c) (read1 h2 xc) of
                  Inl e \<Rightarrow> (Inl e, h2)
                | Inr yvals \<Rightarrow>
                    (case alloc h2 yvals of
                       (ycontrib, h3) \<Rightarrow>
                         (case apply_mods_h ?res ''mult'' mods ycontrib h3 of
                            (Inl e, h4) \<Rightarrow> (Inl e, h4)
                          | (Inr u, h4) \<Rightarrow> (Inr ycontrib, h4)))))"
        using False Inr p al run1 by (simp split: sum.splits)
      show ?thesis
      proof (cases r1)
        case (Inl e)
        then have "r = Inl e" using step1 Suc.prems(2) by simp
        then show ?thesis using c1 Inl pu1 by simp
      next
        case r1: (Inr u1)
        have x1: "apply_mods ?pure ''intern'' mods (h1 ! base xc) = Inr (h2 ! base xc)"
          and ox: "owns h2 xc" and Y2: "map (read2 h2) ycur = ?Y"
          and oc: "only_changed (base xc) h1 h2"
          using c1 r1 by simp_all
        have rx: "read1 h2 xc = h2 ! base xc" using read1_owns[OF ox] .
        have l12: "length h1 \<le> length h2" using only_changed_length[OF oc] .
        have l01: "length h \<le> length h1" using ao(1) by simp
        show ?thesis
        proof (cases "apply_term (c_model c) (h2 ! base xc)")
          case (Inl e)
          then have "r = Inl e" using step1 Suc.prems(2) r1 rx by simp
          then show ?thesis using pu1 x1 Inl by simp
        next
          case (Inr yvals)
          obtain yc h3 where al2: "alloc h2 yvals = (yc, h3)" by (cases "alloc h2 yvals")
          note ao2 = alloc_owns[OF al2]
          obtain r2 h4 where run2: "apply_mods_h ?res ''mult'' mods yc h3 = (r2, h4)"
            by (cases "apply_mods_h ?res ''mult'' mods yc h3")
          have L2: "L \<le> length h2" using Suc.prems(1) l01 l12 by simp
          have Y3: "map (read2 h3) ycur = ?Y" using views_append[OF vo L2] ao2(1) Y2 by simp
          have Lb2: "L \<le> base yc" using ao2(2) L2 by simp
          note c2 = am[OF Lb2 ao2(3) Y3 run2]
          have res: "(r, h') = (case r2 of Inl e \<Rightarrow> (Inl e, h4) | Inr u \<Rightarrow> (Inr yc, h4))"
            using step1 Suc.prems(2) r1 rx Inr al2 run2 by (simp split: sum.splits)
          have pu2: "resolve_contribution (Suc d) sim c ?Y g
                       = apply_mods ?pure ''mult'' mods (h3 ! base yc)"
            using pu1 x1 Inr ao2(4) by simp
          show ?thesis
          proof (cases r2)
            case (Inl e)
            then show ?thesis using res c2 pu2 by simp
          next
            case (Inr u)
            then show ?thesis using res c2 pu2 ao2(2) l01 l12 by simp
          qed
        qed
      qed
    qed
  qed
qed

lemma fold_update_length: "length (fold (\<lambda>(i, v) b. b[i := v]) kvs b) = length b"
  by (induction kvs arbitrary: b) auto

lemma fold_update_nth:
  "distinct (map fst kvs) \<Longrightarrow> k < length b \<Longrightarrow>
     fold (\<lambda>(i, v) b. b[i := v]) kvs b ! k = (case map_of kvs k of None \<Rightarrow> b ! k | Some v \<Rightarrow> v)"
proof (induction kvs arbitrary: b)
  case Nil
  then show ?case by simp
next
  case (Cons kv kvs)
  obtain i v where kv: "kv = (i, v)" by (cases kv)
  have d: "distinct (map fst kvs)" and ni: "i \<notin> fst ` set kvs" using Cons.prems(1) kv by auto
  have none: "map_of kvs i = None" using ni by (simp add: map_of_eq_None_iff)
  have "fold (\<lambda>(i, v) b. b[i := v]) kvs (b[i := v]) ! k
          = (case map_of kvs k of None \<Rightarrow> b[i := v] ! k | Some v \<Rightarrow> v)"
    by (rule Cons.IH[OF d]) (use Cons.prems(2) in simp)
  then show ?case using kv none Cons.prems(2)
    by (cases "k = i") (simp_all split: option.splits)
qed

lemma read2_owns2:
  "owns2 h m \<Longrightarrow> read2 h m = \<lparr>nrows = rows m, ncols = cols m, dat = h ! base2 m\<rparr>"
proof -
  assume o: "owns2 h m"
  have "map (\<lambda>k. h ! base2 m ! (off m + k)) [0..<rows m * cols m] = h ! base2 m"
    using o map_nth[of "h ! base2 m"] by (simp add: owns2_def)
  then show ?thesis by (simp add: read2_def)
qed

text \<open>\<open>yprime[i][:, j] += v\<close>: the write through the column view is \<open>set_column\<close>.\<close>

lemma write_column:
  assumes o: "owns2 h yp" and cv: "col_view yp j = Inr col" and l: "length vs = rows yp"
  shows "write1 h col vs = h[base2 yp := dat (set_column (read2 h yp) j vs)]"
proof -
  let ?c = "cols yp" and ?n = "rows yp" and ?b = "h ! base2 yp"
  have j: "j < ?c" and col: "col = \<lparr>base = base2 yp, idx = map (\<lambda>r. off yp + r * ?c + j) [0..<?n]\<rparr>"
    using cv by (auto simp: col_view_def split: if_splits)
  have off: "off yp = 0" and lb: "length ?b = ?n * ?c" using o by (simp_all add: owns2_def)
  let ?xs = "map (\<lambda>r. r * ?c + j) [0..<?n]"
  have lx: "length ?xs = length vs" using l by simp
  have inj: "inj_on (\<lambda>r. r * ?c + j) (set [0..<?n])"
    using j by (auto simp: inj_on_def)
  have dx: "distinct ?xs" using inj by (simp add: distinct_map)
  have dz: "distinct (map fst (zip ?xs vs))" using dx lx by (simp add: map_fst_zip)
  let ?f = "fold (\<lambda>(i, v) b. b[i := v]) (zip ?xs vs) ?b"
  have "?f = map (\<lambda>k. if k mod ?c = j then vs ! (k div ?c) else ?b ! k) [0..<length ?b]"
  proof (rule nth_equalityI)
    show "length ?f = length (map (\<lambda>k. if k mod ?c = j then vs ! (k div ?c) else ?b ! k) [0..<length ?b])"
      by (simp add: fold_update_length)
  next
    fix k assume "k < length ?f"
    then have k: "k < length ?b" by (simp add: fold_update_length)
    have fk: "?f ! k = (case map_of (zip ?xs vs) k of None \<Rightarrow> ?b ! k | Some v \<Rightarrow> v)"
      by (rule fold_update_nth[OF dz k])
    show "?f ! k = map (\<lambda>k. if k mod ?c = j then vs ! (k div ?c) else ?b ! k) [0..<length ?b] ! k"
    proof (cases "k mod ?c = j")
      case True
      have c0: "0 < ?c" using j by simp
      have kd: "k div ?c < ?n" using k lb c0 by (simp add: less_mult_imp_div_less)
      have "k div ?c * ?c + k mod ?c = k" by (rule div_mult_mod_eq)
      then have kk: "k = ?xs ! (k div ?c)" using kd True by simp
      have "map_of (zip ?xs vs) (?xs ! (k div ?c)) = Some (vs ! (k div ?c))"
        by (rule map_of_zip_nth[OF lx dx]) (use kd l in simp)
      then have "map_of (zip ?xs vs) k = Some (vs ! (k div ?c))" using kk by simp
      then show ?thesis using fk True k by simp
    next
      case False
      have "k \<notin> set ?xs" using False j by auto
      then have "map_of (zip ?xs vs) k = None" using lx by (simp add: map_of_zip_is_None)
      then show ?thesis using fk False k by simp
    qed
  qed
  then show ?thesis
    using off o by (simp add: write1_def col set_column_def read2_owns2 cong: if_cong)
qed

lemma owns2_same:
  "owns2 h m \<Longrightarrow> length h \<le> length h' \<Longrightarrow> h' ! base2 m = h ! base2 m \<Longrightarrow> owns2 h' m"
  by (simp add: owns2_def)

lemma set_column_read2:
  assumes "owns2 h yp"
  shows "owns2 (h[base2 yp := dat (set_column (read2 h yp) j vs)]) yp"
    and "read2 (h[base2 yp := dat (set_column (read2 h yp) j vs)]) yp = set_column (read2 h yp) j vs"
proof -
  let ?h = "h[base2 yp := dat (set_column (read2 h yp) j vs)]"
  have l: "length (dat (set_column (read2 h yp) j vs)) = rows yp * cols yp"
    using assms by (simp add: set_column_def read2_owns2 owns2_def)
  show o: "owns2 ?h yp" using assms l by (simp add: owns2_def)
  have b: "?h ! base2 yp = dat (set_column (read2 h yp) j vs)"
    using assms by (simp add: owns2_def)
  have "read2 ?h yp = \<lparr>nrows = rows yp, ncols = cols yp, dat = ?h ! base2 yp\<rparr>"
    by (rule read2_owns2[OF o])
  also have "\<dots> = \<lparr>nrows = rows yp, ncols = cols yp, dat = dat (set_column (read2 h yp) j vs)\<rparr>"
    unfolding b ..
  also have "\<dots> = set_column (read2 h yp) j vs"
    by (simp add: set_column_def read2_def)
  finally show "read2 ?h yp = set_column (read2 h yp) j vs" .
qed

lemma accumulate_h_refines:
  assumes fr0: "\<forall>m h1 r h2. res m h1 = (r, h2) \<longrightarrow> unchanged_below (length h1) h1 h2"
    and rs0: "\<forall>m h1 r h2. L \<le> length h1 \<and> map (read2 h1) ycur = Y \<and> res m h1 = (r, h2) \<longrightarrow>
               (case r of Inl e \<Rightarrow> pure m = Inl e
                | Inr v \<Rightarrow> pure m = Inr (h2 ! base v) \<and> length h1 \<le> base v \<and> owns h2 v)"
    and vo: "list_all (\<lambda>m. base2 m < L) ycur"
    and Lb: "L \<le> base2 yp"
    and ow: "owns2 h1 yp"
    and Y: "map (read2 h1) ycur = Y"
    and run: "accumulate_h res cs j yp h1 = (r, h2)"
  shows "(case r of Inl e \<Rightarrow> accumulate pure cs j (read2 h1 yp) = Inl e
          | Inr u \<Rightarrow> accumulate pure cs j (read2 h1 yp) = Inr (read2 h2 yp))
         \<and> owns2 h2 yp \<and> map (read2 h2) ycur = Y \<and> only_changed (base2 yp) h1 h2"
  using ow Y run
proof (induction cs arbitrary: h1)
  case Nil
  then show ?case by (auto simp: only_changed_refl)
next
  case (Cons c rest)
  have fr: "res m h1 = (r, h2) \<Longrightarrow> unchanged_below (length h1) h1 h2" for m h1 r h2
    using fr0 by blast
  have rs: "L \<le> length h1 \<Longrightarrow> map (read2 h1) ycur = Y \<Longrightarrow> res m h1 = (r, h2) \<Longrightarrow>
               (case r of Inl e \<Rightarrow> pure m = Inl e
                | Inr v \<Rightarrow> pure m = Inr (h2 ! base v) \<and> length h1 \<le> base v \<and> owns h2 v)"
    for m h1 r h2
    using rs0 by blast
  obtain r1 h1' where R: "res c h1 = (r1, h1')" by (cases "res c h1")
  have ub: "unchanged_below (length h1) h1 h1'" using fr[OF R] .
  have bl: "base2 yp < length h1" using Cons.prems(1) by (simp add: owns2_def)
  have Ll: "L \<le> length h1" using Lb bl by simp
  have len1: "length h1 \<le> length h1'" using ub by (simp add: unchanged_below_def)
  have same1: "h1' ! a = h1 ! a" if "a < length h1" for a using ub_nth[OF ub that] .
  have ow1: "owns2 h1' yp" using owns2_same[OF Cons.prems(1) len1 same1[OF bl]] .
  have Y1: "map (read2 h1') ycur = Y"
    using views_same[OF vo, of h1' h1] same1 Ll Cons.prems(2) by simp
  have oc1: "only_changed (base2 yp) h1 h1'" using ub_only_changed[OF ub] .
  have rd1: "read2 h1' yp = read2 h1 yp" using read2_same[OF same1[OF bl]] .
  note spec = rs[OF Ll Cons.prems(2) R]
  show ?case
  proof (cases r1)
    case (Inl e)
    then have "r = Inl e" "h2 = h1'" using Cons.prems(3) R by simp_all
    moreover have "pure c = Inl e" using spec Inl by simp
    ultimately show ?thesis using ow1 Y1 oc1 by simp
  next
    case r1: (Inr v)
    then have pv: "pure c = Inr (h1' ! base v)" and ov: "owns h1' v"
      using spec by simp_all
    have rv: "read1 h1' v = h1' ! base v" using read1_owns[OF ov] .
    show ?thesis
    proof (cases "col_view yp j")
      case (Inl e)
      then have "r = Inl e" "h2 = h1'" using Cons.prems(3) R r1 by simp_all
      moreover have "add_column (read2 h1 yp) j (h1' ! base v) = Inl e"
        using col_view_column_err[OF Inl, of h1] by (simp add: add_column_def)
      ultimately show ?thesis using ow1 Y1 oc1 pv by simp
    next
      case cv: (Inr col)
      have cl: "column (read2 h1 yp) j = Inr (read1 h1' col)"
        using col_view_column[OF cv, of h1'] rd1 by simp
      have lc: "length (read1 h1' col) = rows yp"
        using cv by (auto simp: col_view_def read1_def split: if_splits)
      show ?thesis
      proof (cases "inplace nadd (read1 h1' col) (h1' ! base v)")
        case (Inl e)
        then have "r = Inl e" "h2 = h1'"
          using Cons.prems(3) R r1 cv rv by (simp_all add: inplace_h_def)
        moreover have "add_column (read2 h1 yp) j (h1' ! base v) = Inl e"
          using cl Inl by (simp add: add_column_def)
        ultimately show ?thesis using ow1 Y1 oc1 pv by simp
      next
        case (Inr vs)
        let ?h2 = "h1'[base2 yp := dat (set_column (read2 h1' yp) j vs)]"
        have lv: "length vs = rows yp" using inplace_length[OF Inr] lc by simp
        have w: "write1 h1' col vs = ?h2" using write_column[OF ow1 cv lv] .
        have ow2: "owns2 ?h2 yp" and rd2: "read2 ?h2 yp = set_column (read2 h1' yp) j vs"
          using set_column_read2[OF ow1] by simp_all
        have "map (read2 ?h2) ycur = map (read2 h1') ycur"
        proof (rule views_same[OF vo])
          fix a assume "a < L"
          then have "a \<noteq> base2 yp" using Lb by simp
          then show "?h2 ! a = h1' ! a" by simp
        qed
        then have Y2: "map (read2 ?h2) ycur = Y" using Y1 by simp
        have run': "accumulate_h res rest j yp ?h2 = (r, h2)"
          using Cons.prems(3) R r1 cv rv Inr w by (simp add: inplace_h_def)
        note ih = Cons.IH[OF ow2 Y2 run']
        have oc2: "only_changed (base2 yp) h1' ?h2" by (rule only_changed_update)
        have oc: "only_changed (base2 yp) h1 h2"
          using only_changed_trans[OF only_changed_trans[OF oc1 oc2]] ih by simp
        have "add_column (read2 h1 yp) j (h1' ! base v) = Inr (read2 ?h2 yp)"
          using cl Inr rd2 rd1 by (simp add: add_column_def)
        then have "accumulate pure (c # rest) j (read2 h1 yp) = accumulate pure rest j (read2 ?h2 yp)"
          using pv by simp
        then show ?thesis using ih oc by (cases r) simp_all
      qed
    qed
  qed
qed

lemma deriv_species_h_refines:
  assumes fr0: "\<forall>i m h1 r h2. res i m h1 = (r, h2) \<longrightarrow> unchanged_below (length h1) h1 h2"
    and rs0: "\<forall>i m h1 r h2. L \<le> length h1 \<and> map (read2 h1) ycur = Y \<and> res i m h1 = (r, h2) \<longrightarrow>
               (case r of Inl e \<Rightarrow> pure i m = Inl e
                | Inr v \<Rightarrow> pure i m = Inr (h2 ! base v) \<and> length h1 \<le> base v \<and> owns h2 v)"
    and vo: "list_all (\<lambda>m. base2 m < L) ycur"
    and Lb: "L \<le> base2 yp"
    and ow: "owns2 h1 yp"
    and Y: "map (read2 h1) ycur = Y"
    and run: "deriv_species_h res sim i js yp h1 = (r, h2)"
  shows "(case r of Inl e \<Rightarrow> deriv_species pure sim i js (read2 h1 yp) = Inl e
          | Inr u \<Rightarrow> deriv_species pure sim i js (read2 h1 yp) = Inr (read2 h2 yp))
         \<and> owns2 h2 yp \<and> map (read2 h2) ycur = Y \<and> only_changed (base2 yp) h1 h2"
  using ow Y run
proof (induction js arbitrary: h1)
  case Nil
  then show ?case by (auto simp: only_changed_refl)
next
  case (Cons j rest)
  have fr: "\<forall>m h1 r h2. res i m h1 = (r, h2) \<longrightarrow> unchanged_below (length h1) h1 h2"
    using fr0 by blast
  have rs: "\<forall>m h1 r h2. L \<le> length h1 \<and> map (read2 h1) ycur = Y \<and> res i m h1 = (r, h2) \<longrightarrow>
               (case r of Inl e \<Rightarrow> pure i m = Inl e
                | Inr v \<Rightarrow> pure i m = Inr (h2 ! base v) \<and> length h1 \<le> base v \<and> owns h2 v)"
    using rs0 by blast
  obtain r1 h1' where A: "accumulate_h (res i) (contributions_of sim i j) j yp h1 = (r1, h1')"
    by (cases "accumulate_h (res i) (contributions_of sim i j) j yp h1")
  note a = accumulate_h_refines[where res = "res i" and pure = "pure i",
             OF fr rs vo Lb Cons.prems(1) Cons.prems(2) A]
  show ?case
  proof (cases r1)
    case (Inl e)
    then have "r = Inl e" "h2 = h1'" using Cons.prems(3) A by simp_all
    then show ?thesis using a Inl by simp
  next
    case (Inr u)
    then have run': "deriv_species_h res sim i rest yp h1' = (r, h2)"
      using Cons.prems(3) A by simp
    have a1: "accumulate (pure i) (contributions_of sim i j) j (read2 h1 yp) = Inr (read2 h1' yp)"
      and ow1: "owns2 h1' yp" and Y1: "map (read2 h1') ycur = Y"
      and oc1: "only_changed (base2 yp) h1 h1'"
      using a Inr by simp_all
    note ih = Cons.IH[OF ow1 Y1 run']
    have oc: "only_changed (base2 yp) h1 h2" using only_changed_trans[OF oc1] ih by simp
    have "deriv_species pure sim i (j # rest) (read2 h1 yp)
            = deriv_species pure sim i rest (read2 h1' yp)"
      using a1 by simp
    then show ?thesis using ih oc by (cases r) simp_all
  qed
qed

lemma deriv_groups_h_refines:
  assumes fr0: "\<forall>i m h1 r h2. res i m h1 = (r, h2) \<longrightarrow> unchanged_below (length h1) h1 h2"
    and rs0: "\<forall>i m h1 r h2. L \<le> length h1 \<and> map (read2 h1) ycur = Y \<and> res i m h1 = (r, h2) \<longrightarrow>
               (case r of Inl e \<Rightarrow> pure i m = Inl e
                | Inr v \<Rightarrow> pure i m = Inr (h2 ! base v) \<and> length h1 \<le> base v \<and> owns h2 v)"
    and vo: "list_all (\<lambda>m. base2 m < L) ycur"
    and Lb: "list_all (\<lambda>yp. L \<le> base2 yp) yprime"
    and ds: "distinct (map base2 yprime)"
    and ir: "list_all (\<lambda>i. i < length yprime) is"
    and ow: "list_all (owns2 h1) yprime"
    and Y: "map (read2 h1) ycur = Y"
    and run: "deriv_groups_h res sim is yprime h1 = (r, h2)"
  shows "case r of Inl e \<Rightarrow> deriv_groups pure sim is (map (read2 h1) yprime) = Inl e
          | Inr u \<Rightarrow> deriv_groups pure sim is (map (read2 h1) yprime) = Inr (map (read2 h2) yprime)"
  using ir ow Y run
proof (induction "is" arbitrary: h1)
  case Nil
  then show ?case by auto
next
  case (Cons i rest)
  let ?yp = "yprime ! i"
  let ?js = "[0..<num_nodes (IMs sim ! i)]"
  have i: "i < length yprime" and ir': "list_all (\<lambda>i. i < length yprime) rest"
    using Cons.prems(1) by simp_all
  have Lyp: "L \<le> base2 ?yp" using Lb i by (simp add: list_all_length)
  have oyp: "owns2 h1 ?yp" using Cons.prems(2) i by (simp add: list_all_length)
  obtain r1 h1' where D: "deriv_species_h res sim i ?js ?yp h1 = (r1, h1')"
    by (cases "deriv_species_h res sim i ?js ?yp h1")
  note s = deriv_species_h_refines[where res = res and pure = pure,
             OF fr0 rs0 vo Lyp oyp Cons.prems(3) D]
  show ?case
  proof (cases r1)
    case (Inl e)
    then have "r = Inl e" using Cons.prems(4) D by simp
    then show ?thesis using s Inl i by simp
  next
    case (Inr u)
    then have run': "deriv_groups_h res sim rest yprime h1' = (r, h2)"
      using Cons.prems(4) D by simp
    have s1: "deriv_species pure sim i ?js (read2 h1 ?yp) = Inr (read2 h1' ?yp)"
      and ow1: "owns2 h1' ?yp" and Y1: "map (read2 h1') ycur = Y"
      and oc1: "only_changed (base2 ?yp) h1 h1'"
      using s Inr by simp_all
    have other: "h1' ! base2 (yprime ! k) = h1 ! base2 (yprime ! k)"
      if "k < length yprime" "k \<noteq> i" for k
    proof -
      have "base2 (yprime ! k) \<noteq> base2 ?yp"
        using ds that i nth_eq_iff_index_eq[of "map base2 yprime" k i] by simp
      moreover have "base2 (yprime ! k) < length h1"
        using Cons.prems(2) that by (simp add: list_all_length owns2_def)
      ultimately show ?thesis using only_changedD[OF oc1] by simp
    qed
    have owA: "list_all (owns2 h1') yprime"
      unfolding list_all_length
    proof (intro allI impI)
      fix k assume k: "k < length yprime"
      show "owns2 h1' (yprime ! k)"
      proof (cases "k = i")
        case True
        then show ?thesis using ow1 by simp
      next
        case False
        have "owns2 h1 (yprime ! k)" using Cons.prems(2) k by (simp add: list_all_length)
        then show ?thesis
          using owns2_same[OF _ only_changed_length[OF oc1] other[OF k False]] by simp
      qed
    qed
    have upd: "map (read2 h1') yprime = (map (read2 h1) yprime)[i := read2 h1' ?yp]"
    proof (rule nth_equalityI)
      show "length (map (read2 h1') yprime) = length ((map (read2 h1) yprime)[i := read2 h1' ?yp])"
        by simp
    next
      fix k assume "k < length (map (read2 h1') yprime)"
      then have k: "k < length yprime" by simp
      show "map (read2 h1') yprime ! k = (map (read2 h1) yprime)[i := read2 h1' ?yp] ! k"
      proof (cases "k = i")
        case True
        then show ?thesis using k by simp
      next
        case False
        then show ?thesis using k read2_same[OF other[OF k False]] by simp
      qed
    qed
    note ih = Cons.IH[OF ir' owA Y1 run']
    have "deriv_groups pure sim (i # rest) (map (read2 h1) yprime)
            = deriv_groups pure sim rest (map (read2 h1') yprime)"
      using s1 i upd by simp
    then show ?thesis using ih by (cases r) simp_all
  qed
qed

lemma alloc_zeros_props:
  "alloc_zeros ds h = (refs, h') \<Longrightarrow>
     map base2 refs = [length h..<length h + length ds]
     \<and> list_all (owns2 h') refs \<and> map (read2 h') refs = map zeros ds"
proof (induction ds arbitrary: h refs h')
  case Nil
  then show ?case by simp
next
  case (Cons d ds)
  let ?z = "replicate (fst d * snd d) (Fin 0)"
  let ?r0 = "\<lparr>base2 = length h, off = 0, rows = fst d, cols = snd d\<rparr>"
  obtain refs' where A: "alloc_zeros ds (h @ [?z]) = (refs', h')" and refs: "refs = ?r0 # refs'"
    using Cons.prems by (auto split: prod.splits)
  note ih = Cons.IH[OF A]
  have fr: "unchanged_below (length (h @ [?z])) (h @ [?z]) h'"
    using alloc_zeros_frame[OF A] by simp
  have z: "h' ! length h = ?z" using ub_nth[OF fr, of "length h"] by simp
  have len: "length h < length h'" using ub_length[OF fr] by simp
  have o0: "owns2 h' ?r0" using z len by (simp add: owns2_def)
  have r0: "read2 h' ?r0 = zeros d" using read2_owns2[OF o0] z by (simp add: zeros_def)
  have "map base2 refs = length h # [Suc (length h)..<Suc (length h) + length ds]"
    using ih refs by simp
  also have "\<dots> = [length h..<length h + length (d # ds)]"
    using upt_conv_Cons[of "length h" "length h + Suc (length ds)"] by simp
  finally show ?case using ih refs o0 r0 by simp
qed

lemma emap_case:
  "emap (\<lambda>x. case f x of Inl e \<Rightarrow> Inl e | Inr y \<Rightarrow> Inr (g y)) xs
     = (case emap f xs of Inl e \<Rightarrow> Inl e | Inr ys \<Rightarrow> Inr (map g ys))"
  by (induction xs) (auto simp: ebind_def split: sum.splits)

lemma slice_as_map:
  assumes "length (slice lo hi y) = n"
  shows "map (\<lambda>k. y ! (lo + k)) [0..<n] = slice lo hi y"
proof (rule nth_equalityI)
  show "length (map (\<lambda>k. y ! (lo + k)) [0..<n]) = length (slice lo hi y)" using assms by simp
next
  fix k assume "k < length (map (\<lambda>k. y ! (lo + k)) [0..<n])"
  then have k: "k < n" by simp
  then have "k < hi - lo" "lo + k < length y" using assms by (auto simp: length_slice)
  then show "map (\<lambda>k. y ! (lo + k)) [0..<n] ! k = slice lo hi y ! k"
    using k by (simp add: nth_slice)
qed

lemma emap_length: "emap f xs = Inr ys \<Longrightarrow> length ys = length xs"
  using emap_InrD by blast

lemma emap_all:
  "emap f xs = Inr ys \<Longrightarrow> (\<And>x y. f x = Inr y \<Longrightarrow> P y) \<Longrightarrow> list_all P ys"
proof (induction xs arbitrary: ys)
  case Nil
  then show ?case by simp
next
  case (Cons x xs)
  then obtain y ys' where y: "f x = Inr y" and ys': "emap f xs = Inr ys'" and e: "ys = y # ys'"
    by (auto simp: ebind_def split: sum.splits)
  show ?case using Cons.IH[OF ys' Cons.prems(2)] Cons.prems(2)[OF y] e by simp
qed

text \<open>
  \<open>deriv\<close>: the array returned on the heap holds the vector returned on values, and an
  exception on the heap is the exception on values.
\<close>

theorem deriv_h_refines:
  assumes ya: "yaddr < length h" and run: "deriv_h d sim yaddr t h = (r, h')"
  shows "case r of
           Inl e \<Rightarrow> deriv d sim (h ! yaddr) t = Inl e
         | Inr v \<Rightarrow> deriv d sim (h ! yaddr) t = Inr (read1 h' v)"
proof (cases "emap (\<lambda>i. ebind (nth_err (IM_cells sim) i) (\<lambda>g. Inr (length g))) [0..<length (IMs sim)]")
  case (Inl e)
  then have "r = Inl e" using run by (simp add: deriv_h_def)
  then show ?thesis using Inl by (simp add: deriv_def)
next
  case nc: (Inr ncs)
  let ?y = "h ! yaddr"
  let ?dims = "zip ncs (map num_nodes (IMs sim))"
  let ?B = "deriv_bounds ?dims"
  let ?f = "\<lambda>i. if length (slice (?B ! i) (?B ! (i + 1)) ?y) = fst (?dims ! i) * snd (?dims ! i)
                 then Inr \<lparr>base2 = yaddr, off = ?B ! i, rows = fst (?dims ! i), cols = snd (?dims ! i)\<rparr>
                 else Inl ValueError"
  have ln: "length ncs = length (IMs sim)" using emap_length[OF nc] by simp
  have ld: "length ?dims = length (IMs sim)" using ln by simp
  have rsl: "reshape_slice ?y (?B ! i) (?B ! (i + 1)) (?dims ! i)
               = (case ?f i of Inl e \<Rightarrow> Inl e | Inr m \<Rightarrow> Inr (read2 h m))" for i
    using slice_as_map[of "?B ! i" "?B ! (i + 1)" ?y "fst (?dims ! i) * snd (?dims ! i)"]
    by (simp add: reshape_slice_def read2_def)
  have pure_views: "emap (\<lambda>i. reshape_slice ?y (?B ! i) (?B ! (i + 1)) (?dims ! i)) [0..<length ?dims]
                      = (case emap ?f [0..<length ?dims] of Inl e \<Rightarrow> Inl e
                         | Inr ys \<Rightarrow> Inr (map (read2 h) ys))"
    unfolding rsl by (rule emap_case)
  have pu: "deriv d sim ?y t =
              ebind (emap (\<lambda>i. reshape_slice ?y (?B ! i) (?B ! (i + 1)) (?dims ! i)) [0..<length ?dims])
                (\<lambda>ycurrent.
              ebind (deriv_groups (\<lambda>i c. resolve_contribution d sim c ycurrent i) sim
                       [0..<length (IMs sim)] (map zeros ?dims)) (\<lambda>yprime.
              reduce_append (map dat yprime)))"
    using nc by (simp add: deriv_def Let_def)
  show ?thesis
  proof (cases "emap ?f [0..<length ?dims]")
    case (Inl e)
    then have "r = Inl e" using run nc by (simp add: deriv_h_def Let_def)
    then show ?thesis using pu pure_views Inl by simp
  next
    case vs: (Inr ycur)
    let ?Y = "map (read2 h) ycur"
    let ?res = "\<lambda>i c. resolve_h d sim c ycur i"
    let ?pure = "\<lambda>i c. resolve_contribution d sim c ?Y i"
    have vo: "list_all (\<lambda>m. base2 m < length h) ycur"
      by (rule emap_all[OF vs]) (use ya in \<open>auto split: if_splits\<close>)
    obtain yprime h1 where az: "alloc_zeros ?dims h = (yprime, h1)"
      by (cases "alloc_zeros ?dims h")
    note zf = alloc_zeros_frame[OF az]
    note zp = alloc_zeros_props[OF az]
    have ub1: "unchanged_below (length h) h h1" using zf by simp
    have Y1: "map (read2 h1) ycur = ?Y"
      by (rule views_same[OF vo]) (rule ub_nth[OF ub1])
    have Lb: "list_all (\<lambda>yp. length h \<le> base2 yp) yprime"
      using zf by (simp add: list_all_length)
    have ds: "distinct (map base2 yprime)" using zp by simp
    have ir: "list_all (\<lambda>i. i < length yprime) [0..<length (IMs sim)]"
      using zf ld by (simp add: list_all_iff)
    have ow: "list_all (owns2 h1) yprime" using zp by simp
    have fr0: "\<forall>i m h1 r h2. ?res i m h1 = (r, h2) \<longrightarrow> unchanged_below (length h1) h1 h2"
      using resolve_h_frame by blast
    have rs0: "\<forall>i m h1 r h2. length h \<le> length h1 \<and> map (read2 h1) ycur = ?Y \<and> ?res i m h1 = (r, h2) \<longrightarrow>
               (case r of Inl e \<Rightarrow> ?pure i m = Inl e
                | Inr v \<Rightarrow> ?pure i m = Inr (h2 ! base v) \<and> length h1 \<le> base v \<and> owns h2 v)"
    proof (intro allI impI, elim conjE)
      fix i m h1 r h2
      assume a: "length h \<le> length h1" "map (read2 h1) ycur = ?Y" "?res i m h1 = (r, h2)"
      show "case r of Inl e \<Rightarrow> ?pure i m = Inl e
                | Inr v \<Rightarrow> ?pure i m = Inr (h2 ! base v) \<and> length h1 \<le> base v \<and> owns h2 v"
        using resolve_h_refines[OF vo a(1) a(3)] unfolding a(2) .
    qed
    obtain r1 h2 where dg: "deriv_groups_h ?res sim [0..<length (IMs sim)] yprime h1 = (r1, h2)"
      by (cases "deriv_groups_h ?res sim [0..<length (IMs sim)] yprime h1")
    note g = deriv_groups_h_refines[where res = ?res and pure = ?pure,
               OF fr0 rs0 vo Lb ds ir ow Y1 dg]
    have z1: "map (read2 h1) yprime = map zeros ?dims" using zp by simp
    have pu1: "deriv d sim ?y t =
                 ebind (deriv_groups ?pure sim [0..<length (IMs sim)] (map (read2 h1) yprime))
                   (\<lambda>yprime. reduce_append (map dat yprime))"
      using pu pure_views vs z1 by simp
    have step: "(r, h') =
        (case r1 of Inl e \<Rightarrow> (Inl e, h2)
         | Inr u \<Rightarrow>
             (case reduce_append (map (\<lambda>yp. dat (read2 h2 yp)) yprime) of
                Inl e \<Rightarrow> (Inl e, h2)
              | Inr flat \<Rightarrow> (case alloc h2 flat of (r, h3) \<Rightarrow> (Inr r, h3))))"
      using run nc vs az dg by (simp add: deriv_h_def Let_def split: sum.splits)
    show ?thesis
    proof (cases r1)
      case (Inl e)
      then show ?thesis using step g pu1 by simp
    next
      case r1: (Inr u)
      then have pu2: "deriv d sim ?y t = reduce_append (map (\<lambda>yp. dat (read2 h2 yp)) yprime)"
        using g pu1 by (simp add: comp_def)
      show ?thesis
      proof (cases "reduce_append (map (\<lambda>yp. dat (read2 h2 yp)) yprime)")
        case (Inl e)
        then show ?thesis using step r1 pu2 by simp
      next
        case (Inr flat)
        obtain v h3 where al: "alloc h2 flat = (v, h3)" by (cases "alloc h2 flat")
        have "read1 h3 v = flat" using alloc_owns[OF al] read1_owns[of h3 v] by simp
        then show ?thesis using step r1 Inr al pu2 by simp
      qed
    qed
  qed
qed

end
